theory Spec2Isabelle
  imports Main "HOL-Library.AList" "HOL-Library.Multiset"
begin

section \<open>Strings and the Unicode data the program reads\<close>

text \<open>
  A Python \<open>str\<close> is a sequence of Unicode code points; it is modelled as a list of
  natural numbers, one per code point. A literal is written from its ASCII characters.
\<close>

type_synonym ustring = "nat list"

definition ustr :: "string \<Rightarrow> ustring" where
  "ustr s = map of_char s"

text \<open>
  Three tables of the Unicode database are consulted through Python's standard library and
  are not part of the repository: the NFKC normal form (\<open>unicodedata.normalize\<close>), the
  alphanumeric property behind the regular expression classes \<open>\w\<close> and \<open>\b\<close>, and the
  decimal digits behind \<open>\d\<close> and \<open>int\<close>. Every function that depends on one of them takes
  the record below as its first argument.
\<close>

record ucd =
  nfkc :: "ustring \<Rightarrow> ustring"
  alnum :: "nat \<Rightarrow> bool"
  decimal :: "nat \<Rightarrow> nat option"

text \<open>
  The Unicode data restricted to ASCII. NFKC leaves every ASCII string unchanged, the ASCII
  alphanumerics are the letters and digits, and the ASCII decimal digits are \<open>0\<close> to \<open>9\<close>;
  on ASCII input the program behaves as the model does with this record.
\<close>

definition ascii_alnum :: "nat \<Rightarrow> bool" where
  "ascii_alnum c = ((48 \<le> c \<and> c \<le> 57) \<or> (65 \<le> c \<and> c \<le> 90) \<or> (97 \<le> c \<and> c \<le> 122))"

definition ascii_decimal :: "nat \<Rightarrow> nat option" where
  "ascii_decimal c = (if 48 \<le> c \<and> c \<le> 57 then Some (c - 48) else None)"

definition ascii_ucd :: ucd where
  "ascii_ucd = \<lparr> nfkc = (\<lambda>s. s), alnum = ascii_alnum, decimal = ascii_decimal \<rparr>"

text \<open>
  Canonical composition of the letter \<open>a\<close> (U+0061) with a directly following combining
  acute accent (U+0301) into U+00E1. On strings over the code points U+0020, U+0061, U+200D
  and U+0301 this is what NFKC computes: none of them has a decomposition, U+200D is a
  starter that takes part in no composition, and the only composing pair is the one above.
\<close>

fun compose_acute :: "ustring \<Rightarrow> ustring" where
  "compose_acute [] = []"
| "compose_acute [c] = [c]"
| "compose_acute (c # d # cs) =
     (if c = 97 \<and> d = 769 then 225 # compose_acute cs else c # compose_acute (d # cs))"

definition acute_ucd :: ucd where
  "acute_ucd = \<lparr> nfkc = compose_acute, alnum = ascii_alnum, decimal = ascii_decimal \<rparr>"

text \<open>
  \<open>str.isspace\<close>, which is also the class \<open>\s\<close> of a \<open>str\<close> pattern and what
  \<open>str.strip()\<close> removes: the 29 white-space code points of Unicode.
\<close>

definition isspace :: "nat \<Rightarrow> bool" where
  "isspace c = ((9 \<le> c \<and> c \<le> 13) \<or> (28 \<le> c \<and> c \<le> 32) \<or> c = 133 \<or> c = 160 \<or> c = 5760
     \<or> (8192 \<le> c \<and> c \<le> 8202) \<or> c = 8232 \<or> c = 8233 \<or> c = 8239 \<or> c = 8287 \<or> c = 12288)"

text \<open>\<open>s.strip(chars)\<close> and \<open>s.strip()\<close>: drop the characters of a set from both ends.\<close>

definition strip_where :: "(nat \<Rightarrow> bool) \<Rightarrow> ustring \<Rightarrow> ustring" where
  "strip_where P s = rev (dropWhile P (rev (dropWhile P s)))"

definition strip :: "ustring \<Rightarrow> ustring" where
  "strip s = strip_where isspace s"

text \<open>
  \<open>re.sub\<close> of a repeated character class: every maximal run of at least \<open>n\<close> characters
  of the class \<open>P\<close> is replaced by \<open>rep\<close>; a shorter run stays as it is. The search is
  leftmost and the repetition greedy, so a match at a position takes the whole run.
\<close>

function sub_runs :: "(nat \<Rightarrow> bool) \<Rightarrow> nat \<Rightarrow> ustring \<Rightarrow> ustring \<Rightarrow> ustring" where
  "sub_runs P n rep [] = []"
| "sub_runs P n rep (c # cs) =
     (if P c \<and> n \<le> length (takeWhile P (c # cs))
      then rep @ sub_runs P n rep (dropWhile P cs)
      else c # sub_runs P n rep cs)"
  by pat_completeness auto
termination
  by (relation "measure (\<lambda>(P, n, rep, s). length s)")
     (auto simp: length_dropWhile_le less_Suc_eq_le)

section \<open>Normalization\<close>

definition DASH_CHARS :: ustring where
  "DASH_CHARS = [8208, 8209, 8210, 8211, 8212, 8213, 8722, 45]"

definition ZERO_WIDTH :: ustring where
  "ZERO_WIDTH = [8203, 8204, 8205, 8288, 65279, 8206, 8207]"

definition NBSP :: nat where
  "NBSP = 160"

text \<open>\<open>DASH_RE.sub("-", s)\<close>: every character of \<open>DASH_CHARS\<close> becomes the ASCII hyphen.\<close>

definition dash_sub :: "ustring \<Rightarrow> ustring" where
  "dash_sub s = map (\<lambda>c. if c \<in> set DASH_CHARS then 45 else c) s"

text \<open>\<open>s.replace(a, b)\<close> for single characters \<open>a\<close> and \<open>b\<close>.\<close>

definition replace_char :: "nat \<Rightarrow> nat \<Rightarrow> ustring \<Rightarrow> ustring" where
  "replace_char a b s = map (\<lambda>c. if c = a then b else c) s"

definition norm :: "ucd \<Rightarrow> ustring \<Rightarrow> ustring" where
  "norm U s0 =
     (let s = nfkc U s0;
          s = foldl (\<lambda>s ch. filter (\<lambda>c. c \<noteq> ch) s) s ZERO_WIDTH;
          s = replace_char 13 10 (replace_char NBSP 32 s);
          s = sub_runs (\<lambda>c. c = 32 \<or> c = 9) 1 [32] s;
          s = dash_sub s
      in strip s)"

definition tidy :: "ustring \<Rightarrow> ustring" where
  "tidy s0 =
     (let s = sub_runs isspace 2 [32] s0
      in strip (strip_where (\<lambda>c. c \<in> set (ustr '' -.()[]:;'')) s))"

section \<open>Regular expressions\<close>

text \<open>
  The patterns of the program, as syntax trees, and the backtracking matcher of Python's
  \<open>re\<close> module. A match state is the text consumed so far (reversed), the text still to
  read, and the groups captured. \<open>rmatch\<close> lists the states in which a pattern can end, in
  the order in which backtracking tries them: a greedy repetition offers the longest run
  first, a lazy one the shortest, an alternative its left branch first. The match that
  Python reports is the first state of the list.
\<close>

datatype re =
    Eps
  | Chr nat
  | ChrI nat
  | Cls "nat \<Rightarrow> bool"
  | Seq re re
  | Alt re re
  | Rep bool nat "nat \<Rightarrow> bool"
  | Star re
  | Grp nat re
  | Bol
  | Eol
  | WordB "nat \<Rightarrow> bool"

type_synonym mstate = "ustring \<times> ustring \<times> (nat \<times> ustring) list"

text \<open>
  A literal letter under the flag \<open>(?i)\<close>, given in lower case: it matches itself and its
  upper case, and besides, by the case folding of \<open>re\<close>, \<open>i\<close> matches U+0130 and U+0131,
  \<open>s\<close> matches U+017F and \<open>k\<close> matches U+212A. A character that is no letter matches
  itself only.
\<close>

definition ci_match :: "nat \<Rightarrow> nat \<Rightarrow> bool" where
  "ci_match p c =
     (c = p \<or> (97 \<le> p \<and> p \<le> 122 \<and> c + 32 = p)
      \<or> (p = 105 \<and> (c = 304 \<or> c = 305)) \<or> (p = 115 \<and> c = 383) \<or> (p = 107 \<and> c = 8490))"

text \<open>The splits of a repeated character class: longest first (greedy), shortest first (lazy).\<close>

fun rep_greedy :: "(nat \<Rightarrow> bool) \<Rightarrow> ustring \<Rightarrow> ustring \<Rightarrow> (ustring \<times> ustring) list" where
  "rep_greedy P pre [] = [(pre, [])]"
| "rep_greedy P pre (c # cs) =
     (if P c then rep_greedy P (c # pre) cs @ [(pre, c # cs)] else [(pre, c # cs)])"

fun rep_lazy :: "(nat \<Rightarrow> bool) \<Rightarrow> ustring \<Rightarrow> ustring \<Rightarrow> (ustring \<times> ustring) list" where
  "rep_lazy P pre [] = [(pre, [])]"
| "rep_lazy P pre (c # cs) =
     (pre, c # cs) # (if P c then rep_lazy P (c # pre) cs else [])"

text \<open>\<open>\b\<close>: exactly one of the neighbours is a word character; the ends of the text are not.\<close>

definition at_boundary :: "(nat \<Rightarrow> bool) \<Rightarrow> ustring \<Rightarrow> ustring \<Rightarrow> bool" where
  "at_boundary W pre s =
     ((case pre of [] \<Rightarrow> False | p # _ \<Rightarrow> W p) \<noteq> (case s of [] \<Rightarrow> False | c # _ \<Rightarrow> W c))"

function rmatch :: "re \<Rightarrow> mstate \<Rightarrow> mstate list" where
  "rmatch Eps st = [st]"
| "rmatch (Chr a) (pre, s, g) =
     (case s of [] \<Rightarrow> [] | c # cs \<Rightarrow> if c = a then [(c # pre, cs, g)] else [])"
| "rmatch (ChrI a) (pre, s, g) =
     (case s of [] \<Rightarrow> [] | c # cs \<Rightarrow> if ci_match a c then [(c # pre, cs, g)] else [])"
| "rmatch (Cls P) (pre, s, g) =
     (case s of [] \<Rightarrow> [] | c # cs \<Rightarrow> if P c then [(c # pre, cs, g)] else [])"
| "rmatch (Seq a b) st = concat (map (rmatch b) (rmatch a st))"
| "rmatch (Alt a b) st = rmatch a st @ rmatch b st"
| "rmatch (Rep greedy n P) (pre, s, g) =
     map (\<lambda>(p, r). (p, r, g))
       (filter (\<lambda>(p, r). length pre + n \<le> length p)
          (if greedy then rep_greedy P pre s else rep_lazy P pre s))"
| "rmatch (Star r) (pre, s, g) =
     concat (map (rmatch (Star r))
       (filter (\<lambda>(pre', s', g'). length s' < length s) (rmatch r (pre, s, g))))
     @ [(pre, s, g)]"
| "rmatch (Grp k r) (pre, s, g) =
     map (\<lambda>(pre', s', g'). (pre', s', (k, rev (take (length pre' - length pre) pre')) # g'))
       (rmatch r (pre, s, g))"
| "rmatch Bol (pre, s, g) = (if pre = [] then [(pre, s, g)] else [])"
| "rmatch Eol (pre, s, g) = (if s = [] \<or> s = [10] then [(pre, s, g)] else [])"
| "rmatch (WordB W) (pre, s, g) = (if at_boundary W pre s then [(pre, s, g)] else [])"
  by pat_completeness auto
termination
  by (relation "measures [\<lambda>(r, st). size r, \<lambda>(r, (pre, s, g)). length s]") auto

text \<open>A match object: its span and its groups.\<close>

record rmatch_obj =
  m_start :: nat
  m_end :: nat
  m_groups :: "(nat \<times> ustring) list"

text \<open>\<open>m.group(k)\<close>; \<open>None\<close> when the group took no part in the match.\<close>

definition group :: "rmatch_obj \<Rightarrow> nat \<Rightarrow> ustring option" where
  "group m k = map_of (m_groups m) k"

text \<open>\<open>pattern.match(s)\<close>: the pattern at the start of the text.\<close>

definition re_match :: "re \<Rightarrow> ustring \<Rightarrow> rmatch_obj option" where
  "re_match r s =
     (case rmatch r ([], s, []) of
        [] \<Rightarrow> None
      | (pre, s', g) # _ \<Rightarrow> Some \<lparr> m_start = 0, m_end = length pre, m_groups = g \<rparr>)"

text \<open>\<open>re.fullmatch\<close>: the first way to match that reads the whole text.\<close>

definition re_fullmatch :: "re \<Rightarrow> ustring \<Rightarrow> rmatch_obj option" where
  "re_fullmatch r s =
     (case filter (\<lambda>(pre, s', g). s' = []) (rmatch r ([], s, [])) of
        [] \<Rightarrow> None
      | (pre, s', g) # _ \<Rightarrow> Some \<lparr> m_start = 0, m_end = length pre, m_groups = g \<rparr>)"

text \<open>
  \<open>re.finditer\<close>: the matches from left to right, each search starting where the previous
  match ended. The patterns searched for here read at least one character; after an empty
  match the search moves one character on.
\<close>

function finditer :: "re \<Rightarrow> ustring \<Rightarrow> ustring \<Rightarrow> rmatch_obj list" where
  "finditer r pre [] =
     (case rmatch r (pre, [], []) of
        [] \<Rightarrow> []
      | (pre', s', g) # _ \<Rightarrow> [\<lparr> m_start = length pre, m_end = length pre', m_groups = g \<rparr>])"
| "finditer r pre (c # cs) =
     (case rmatch r (pre, c # cs, []) of
        [] \<Rightarrow> finditer r (c # pre) cs
      | (pre', s', g) # _ \<Rightarrow>
          \<lparr> m_start = length pre, m_end = length pre', m_groups = g \<rparr> #
          (if length s' < length (c # cs) then finditer r pre' s' else finditer r (c # pre) cs))"
  by pat_completeness auto
termination
  by (relation "measure (\<lambda>(r, pre, s). length s)") auto

text \<open>The loop \<open>for m in re.finditer(...): m_last = m\<close>.\<close>

definition last_match :: "re \<Rightarrow> ustring \<Rightarrow> rmatch_obj option" where
  "last_match r s = (case finditer r [] s of [] \<Rightarrow> None | m # ms \<Rightarrow> Some (last (m # ms)))"

definition seqs :: "re list \<Rightarrow> re" where
  "seqs rs = foldr Seq rs Eps"

definition lit_ci :: "string \<Rightarrow> re" where
  "lit_ci w = seqs (map (\<lambda>c. ChrI (of_char c)) w)"

definition ws_star :: re where
  "ws_star = Rep True 0 isspace"

definition dot :: "nat \<Rightarrow> bool" where
  "dot c = (c \<noteq> 10)"

definition is_word :: "ucd \<Rightarrow> nat \<Rightarrow> bool" where
  "is_word U c = (alnum U c \<or> c = 95)"

definition ascii_digit :: "nat \<Rightarrow> bool" where
  "ascii_digit c = (48 \<le> c \<and> c \<le> 57)"

definition RE_AFI_HDR :: re where
  "RE_AFI_HDR = seqs [Bol, ws_star, lit_ci ''area'', Alt (ChrI 115) Eps, Rep True 1 isspace,
     Grp 1 (Alt (lit_ci ''for'') (lit_ci ''of'')), Rep True 1 isspace, lit_ci ''improvement'',
     ws_star, Alt (Chr 58) Eps, ws_star, Eol]"

definition RE_RECO_HDR :: re where
  "RE_RECO_HDR = seqs [Bol, ws_star, lit_ci ''recommendation'', Alt (ChrI 115) Eps,
     ws_star, Alt (Chr 58) Eps, ws_star, Eol]"

definition RE_PROCESS :: re where
  "RE_PROCESS = seqs [Bol, ws_star, lit_ci ''process'', ws_star,
     Alt (Cls (\<lambda>c. c = 58 \<or> c = 45)) Eps, ws_star,
     Grp 1 (Seq (Rep True 1 ascii_digit) (Star (Seq (Chr 46) (Rep True 1 ascii_digit)))),
     Rep True 1 isspace, Grp 2 (Rep True 1 dot), Eol]"

definition RE_PROC_SIMPLE :: "ucd \<Rightarrow> re" where
  "RE_PROC_SIMPLE U = seqs [Bol, ws_star,
     Grp 1 (Alt (lit_ci ''value'') (Alt (lit_ci ''operational'') (lit_ci ''business''))),
     WordB (is_word U),
     Alt (seqs [ws_star, Cls (\<lambda>c. c = 58 \<or> c = 45 \<or> c = 8211 \<or> c = 8212), ws_star,
                Grp 2 (Rep True 1 dot)]) Eps,
     Eol]"

definition RE_NUM_ITEM :: "ucd \<Rightarrow> re" where
  "RE_NUM_ITEM U = seqs [Bol, ws_star, Grp 1 (Rep True 1 (\<lambda>c. decimal U c \<noteq> None)), ws_star,
     Chr 45, ws_star, Grp 2 (Rep False 1 dot), ws_star, Eol]"

text \<open>The pattern \<open>\(([^)]*?)\)\<close> of the annotation extractor.\<close>

definition RE_PAREN :: re where
  "RE_PAREN = seqs [Chr 40, Grp 1 (Rep False 0 (\<lambda>c. c \<noteq> 41)), Chr 41]"

text \<open>The pattern \<open>\([^)]*\)\<close> of an annotation-only line.\<close>

definition RE_PAREN_LINE :: re where
  "RE_PAREN_LINE = seqs [Chr 40, Rep True 0 (\<lambda>c. c \<noteq> 41), Chr 41]"

text \<open>The pattern \<open>(?i)\b(major|other)\b\<close> of the keyword fallback.\<close>

definition RE_KEYWORD :: "ucd \<Rightarrow> re" where
  "RE_KEYWORD U = seqs [WordB (is_word U), Grp 1 (Alt (lit_ci ''major'') (lit_ci ''other'')),
     WordB (is_word U)]"

section \<open>String operations of the standard library\<close>

text \<open>The index of the first occurrence of a character, if there is one.\<close>

fun index_of :: "nat \<Rightarrow> ustring \<Rightarrow> nat option" where
  "index_of c [] = None"
| "index_of c (x # xs) = (if x = c then Some 0 else map_option Suc (index_of c xs))"

text \<open>\<open>s.find(c, start)\<close> for a single character; \<open>None\<close> stands for the result \<open>-1\<close>.\<close>

definition find_from :: "nat \<Rightarrow> ustring \<Rightarrow> nat \<Rightarrow> nat option" where
  "find_from c s start = map_option (\<lambda>k. start + k) (index_of c (drop start s))"

text \<open>\<open>s.split(c, 1)\<close>: the text before and after the first \<open>c\<close>, or the text alone.\<close>

definition split1 :: "nat \<Rightarrow> ustring \<Rightarrow> ustring list" where
  "split1 c s = (case index_of c s of None \<Rightarrow> [s] | Some k \<Rightarrow> [take k s, drop (Suc k) s])"

text \<open>\<open>sep.join(xs)\<close>.\<close>

fun join :: "ustring \<Rightarrow> ustring list \<Rightarrow> ustring" where
  "join sep [] = []"
| "join sep [x] = x"
| "join sep (x # y # ys) = x @ sep @ join sep (y # ys)"

text \<open>
  \<open>s.replace(old, new)\<close>: the occurrences of \<open>old\<close> from left to right, not overlapping.
  For an empty \<open>old\<close> Python puts \<open>new\<close> before every character and at the end.
\<close>

function replace_from :: "ustring \<Rightarrow> ustring \<Rightarrow> ustring \<Rightarrow> ustring" where
  "replace_from old new [] = []"
| "replace_from old new (c # cs) =
     (if old \<noteq> [] \<and> take (length old) (c # cs) = old
      then new @ replace_from old new (drop (length old) (c # cs))
      else c # replace_from old new cs)"
  by pat_completeness auto
termination
  by (relation "measure (\<lambda>(old, new, s). length s)") auto

definition replace :: "ustring \<Rightarrow> ustring \<Rightarrow> ustring \<Rightarrow> ustring" where
  "replace old new s =
     (if old = [] then new @ concat (map (\<lambda>c. c # new) s) else replace_from old new s)"

text \<open>
  \<open>s.capitalize()\<close> on the texts the program applies it to, the groups matched by the words
  of \<open>RE_KEYWORD\<close> and \<open>RE_PROC_SIMPLE\<close>: ASCII letters and the code points U+0130, U+0131
  and U+017F. The first character is put in upper case, the others in lower case; the
  lower case of U+0130 is \<open>i\<close> followed by U+0307.
\<close>

definition upper_cp :: "nat \<Rightarrow> ustring" where
  "upper_cp c = (if 97 \<le> c \<and> c \<le> 122 then [c - 32] else [c])"

definition lower_cp :: "nat \<Rightarrow> ustring" where
  "lower_cp c = (if 65 \<le> c \<and> c \<le> 90 then [c + 32] else if c = 304 then [105, 775] else [c])"

definition capitalize :: "ustring \<Rightarrow> ustring" where
  "capitalize s = (case s of [] \<Rightarrow> [] | c # cs \<Rightarrow> upper_cp c @ concat (map lower_cp cs))"

text \<open>\<open>str(n)\<close> for an integer.\<close>

function str_nat :: "nat \<Rightarrow> ustring" where
  "str_nat n = (if n < 10 then [48 + n] else str_nat (n div 10) @ [48 + n mod 10])"
  by pat_completeness auto
termination
  by (relation "measure (\<lambda>n. n)") auto

definition str_int :: "int \<Rightarrow> ustring" where
  "str_int n = (if n < 0 then 45 # str_nat (nat (- n)) else str_nat (nat n))"

text \<open>\<open>int(s)\<close> for a text of decimal digits, as the group \<open>(\d+)\<close> is.\<close>

definition int_of_digits :: "ucd \<Rightarrow> ustring \<Rightarrow> int" where
  "int_of_digits U s =
     int (foldl (\<lambda>n c. 10 * n + (case decimal U c of None \<Rightarrow> 0 | Some d \<Rightarrow> d)) 0 s)"

section \<open>Classification and entity extraction\<close>

text \<open>
  A group read from a match of a pattern in which it always takes part; an optional group
  that took no part reads as the empty text (\<open>m.group(2) or ""\<close>).
\<close>

definition grp :: "rmatch_obj \<Rightarrow> nat \<Rightarrow> ustring" where
  "grp m k = (case group m k of None \<Rightarrow> [] | Some g \<Rightarrow> g)"

text \<open>
  The text between the parentheses, split at its first hyphen into classification and
  entity (the same four lines in \<open>extract_ce_anywhere\<close> and \<open>extract_ce_across_lines\<close>).
\<close>

definition paren_fields :: "ustring \<Rightarrow> ustring \<times> ustring" where
  "paren_fields g =
     (let inside = strip (dash_sub g);
          parts = split1 45 inside;
          cls = (case parts of [] \<Rightarrow> [] | p # _ \<Rightarrow> tidy p);
          ent = (if length parts > 1 then tidy (parts ! 1) else [])
      in (cls, ent))"

text \<open>The first part of \<open>extract_ce_anywhere\<close>: the last parenthesized group.\<close>

definition paren_annotation :: "ustring \<Rightarrow> (ustring \<times> ustring \<times> ustring) option" where
  "paren_annotation s =
     (case last_match RE_PAREN s of
        None \<Rightarrow> None
      | Some m_last \<Rightarrow>
          (case paren_fields (grp m_last 1) of (cls, ent) \<Rightarrow>
             if cls \<noteq> [] \<or> ent \<noteq> []
             then Some (tidy (strip (take (m_start m_last) s @ [32] @ drop (m_end m_last) s)),
                        cls, ent)
             else None))"

text \<open>The second part: the last keyword and the first hyphen from its start on.\<close>

definition keyword_annotation :: "ucd \<Rightarrow> ustring \<Rightarrow> (ustring \<times> ustring \<times> ustring) option" where
  "keyword_annotation U s =
     (case last_match (RE_KEYWORD U) s of
        None \<Rightarrow> None
      | Some m_kw \<Rightarrow>
          (case find_from 45 s (m_start m_kw) of
             None \<Rightarrow> None
           | Some dash \<Rightarrow>
               (let cls = capitalize (grp m_kw 1);
                    ent = tidy (drop (dash + 1) s)
                in if ent \<noteq> [] then Some (tidy (take (m_start m_kw) s), cls, ent) else None)))"

definition extract_ce_anywhere :: "ucd \<Rightarrow> ustring \<Rightarrow> ustring \<times> ustring \<times> ustring" where
  "extract_ce_anywhere U text =
     (case paren_annotation text of
        Some r \<Rightarrow> r
      | None \<Rightarrow>
          (case keyword_annotation U text of
             Some r \<Rightarrow> r
           | None \<Rightarrow> (tidy text, [], [])))"

text \<open>
  The loop of \<open>extract_ce_across_lines\<close>: from line \<open>j\<close> on, the lines are added to the
  buffer up to and including the first one with a closing parenthesis.
\<close>

function collect_lines :: "ustring list \<Rightarrow> nat \<Rightarrow> ustring list \<Rightarrow> ustring list \<times> nat" where
  "collect_lines line_list j buf =
     (if j < length line_list
      then (if 41 \<in> set (line_list ! j) then (buf @ [line_list ! j], j)
            else collect_lines line_list (j + 1) (buf @ [line_list ! j]))
      else (buf, j))"
  by pat_completeness auto
termination
  by (relation "measure (\<lambda>(line_list, j, buf). length line_list - j)") auto

text \<open>
  \<open>idx\<close> is the index of the caller's loop, a natural number; the index returned is an
  integer, \<open>min(j, len(line_list) - 1)\<close> being \<open>-1\<close> for an empty list.
\<close>

definition extract_ce_across_lines ::
  "ucd \<Rightarrow> ustring list \<Rightarrow> nat \<Rightarrow> ustring \<Rightarrow> ustring \<times> ustring \<times> ustring \<times> int" where
  "extract_ce_across_lines U line_list idx first_line =
     (if 40 \<in> set first_line \<and> 41 \<notin> set first_line
      then
        (case collect_lines line_list (idx + 1)
                [drop (case index_of 40 first_line of None \<Rightarrow> 0 | Some k \<Rightarrow> k) first_line] of
           (buf, j) \<Rightarrow>
             (let combined = norm U (join [32] buf);
                  j' = min (int j) (int (length line_list) - 1)
              in case last_match RE_PAREN combined of
                   Some m_last \<Rightarrow>
                     (case paren_fields (grp m_last 1) of (cls, ent) \<Rightarrow>
                        (let cleaned = norm U (replace
                               (take (m_end m_last - m_start m_last) (drop (m_start m_last) combined))
                               [32] first_line)
                         in (tidy cleaned, cls, ent, j')))
                 | None \<Rightarrow> (tidy first_line, [], [], j')))
      else
        (case extract_ce_anywhere U first_line of
           (clean, cls, ent) \<Rightarrow> (clean, cls, ent, int idx)))"

section \<open>The record sink\<close>

text \<open>
  The worksheet is a partial map from (row, column) to the value of the cell;
  \<open>ws.cell(row, col).value = v\<close> updates it. The columns are the six that
  \<open>detect_columns\<close> returns.
\<close>

type_synonym sheet = "int \<times> int \<Rightarrow> ustring option"

type_synonym cols = "int \<times> int \<times> int \<times> int \<times> int \<times> int"

definition write_row ::
  "ucd \<Rightarrow> sheet \<Rightarrow> int \<Rightarrow> cols \<Rightarrow> ustring \<Rightarrow> ustring \<Rightarrow> ustring \<Rightarrow> ustring \<Rightarrow> ustring \<Rightarrow> ustring
     \<Rightarrow> sheet" where
  "write_row U sh r cs afi_text cls ent reco_text label src_file =
     (case cs of (col_afi, col_class, col_reco, col_entity, col_process, col_file) \<Rightarrow>
        (case extract_ce_anywhere U afi_text of (clean_afi, c2, e2) \<Rightarrow>
           (let cls' = (if cls = [] \<and> c2 \<noteq> [] then c2 else cls);
                ent' = (if ent = [] \<and> e2 \<noteq> [] then e2 else ent)
            in sh((r, col_afi) \<mapsto> clean_afi, (r, col_class) \<mapsto> cls', (r, col_reco) \<mapsto> reco_text,
                  (r, col_entity) \<mapsto> ent', (r, col_process) \<mapsto> label, (r, col_file) \<mapsto> src_file))))"

section \<open>The parser of one document\<close>

record afi =
  afi_num :: "int option"
  afi_text :: ustring
  afi_cls :: ustring
  afi_ent :: ustring

text \<open>
  The local variables of \<open>process_file\<close> and the worksheet it writes to. \<open>pos\<close> is the
  loop index \<open>i\<close>; \<open>recs\<close> is a dictionary, kept in insertion order.
\<close>

record pstate =
  ws :: sheet
  row :: int
  in_afi :: bool
  in_reco :: bool
  process_label :: ustring
  afis :: "afi list"
  recs :: "(ustring \<times> ustring) list"
  cur_rec_num :: "ustring option"
  cur_rec_parts :: "ustring list"
  last_afi_idx :: "nat option"
  pos :: nat

definition SEP :: ustring where
  "SEP = ustr '' | ''"

definition flush_reco :: "pstate \<Rightarrow> pstate" where
  "flush_reco st =
     (let st' =
        (case cur_rec_num st of
           None \<Rightarrow> st
         | Some k \<Rightarrow>
             (let txt = join SEP (filter (\<lambda>t. t \<noteq> []) (cur_rec_parts st))
              in if txt \<noteq> []
                 then (let prev = (case map_of (recs st) k of None \<Rightarrow> [] | Some p \<Rightarrow> p)
                       in st\<lparr>recs := AList.update k (prev @ (if prev \<noteq> [] then SEP else []) @ txt)
                                      (recs st)\<rparr>)
                 else st))
      in st'\<lparr>cur_rec_num := None, cur_rec_parts := []\<rparr>)"

text \<open>The numbering loop of the flush: \<open>seq\<close> counts the items without a number.\<close>

fun assign_seq :: "int \<Rightarrow> afi list \<Rightarrow> afi list" where
  "assign_seq seq [] = []"
| "assign_seq seq (a # as) =
     (case afi_num a of
        None \<Rightarrow> a\<lparr>afi_num := Some seq\<rparr> # assign_seq (seq + 1) as
      | Some n \<Rightarrow> a # assign_seq seq as)"

text \<open>
  The key of the sort, \<open>int(x["num"])\<close>. It is read after the numbering loop, when every
  item has a number.
\<close>

definition num_key :: "afi \<Rightarrow> int" where
  "num_key a = the (afi_num a)"

text \<open>The loop that writes one row per item.\<close>

fun emit_rows ::
  "ucd \<Rightarrow> cols \<Rightarrow> (ustring \<times> ustring) list \<Rightarrow> ustring \<Rightarrow> ustring \<Rightarrow> afi list \<Rightarrow> sheet \<times> int
     \<Rightarrow> sheet \<times> int" where
  "emit_rows U cs rs label src [] (sh, r) = (sh, r)"
| "emit_rows U cs rs label src (a # as) (sh, r) =
     (let n = str_int (num_key a);
          rec = (case map_of rs n of None \<Rightarrow> [] | Some t \<Rightarrow> t)
      in emit_rows U cs rs label src as
           (write_row U sh r cs (afi_text a) (afi_cls a) (afi_ent a) rec label src, r + 1))"

text \<open>
  The flush of a process block, at a process header and at the end of the document.
  The numbers are assigned in place, so the items keep them afterwards.
\<close>

definition emit_block :: "ucd \<Rightarrow> cols \<Rightarrow> ustring \<Rightarrow> pstate \<Rightarrow> pstate" where
  "emit_block U cs src st =
     (if afis st \<noteq> [] \<or> recs st \<noteq> []
      then (let numbered = assign_seq 1 (afis st)
            in case emit_rows U cs (recs st) (process_label st) src
                      (sort_key num_key numbered) (ws st, row st) of
                 (sh, r) \<Rightarrow> st\<lparr>afis := numbered, ws := sh, row := r\<rparr>)
      else st)"

definition EN_DASH_SEP :: ustring where
  "EN_DASH_SEP = [32, 8211, 32]"

text \<open>A process header line.\<close>

definition header_line ::
  "ucd \<Rightarrow> cols \<Rightarrow> ustring \<Rightarrow> rmatch_obj option \<Rightarrow> rmatch_obj option \<Rightarrow> pstate \<Rightarrow> pstate" where
  "header_line U cs src m_proc m_simple st =
     (let st1 = emit_block U cs src (flush_reco st);
          label =
            (case m_proc of
               Some m \<Rightarrow> grp m 1 @ EN_DASH_SEP @ grp m 2
             | None \<Rightarrow>
                 (case m_simple of
                    None \<Rightarrow> []
                  | Some m \<Rightarrow>
                      (let head = capitalize (grp m 1); tail = grp m 2
                       in head @ (if tail \<noteq> [] then EN_DASH_SEP @ tail else []))))
      in st1\<lparr>in_afi := False, in_reco := False, process_label := label, afis := [], recs := [],
             last_afi_idx := None, pos := pos st + 1\<rparr>)"

text \<open>
  A line read in the AFI state. \<open>last_afi_idx\<close> is the index of the last item of \<open>afis\<close>
  whenever it is set.
\<close>

definition afi_line :: "ucd \<Rightarrow> ustring list \<Rightarrow> ustring \<Rightarrow> pstate \<Rightarrow> pstate" where
  "afi_line U lines line st =
     (if re_fullmatch RE_PAREN_LINE line \<noteq> None
      then
        (case extract_ce_anywhere U line of (clean, c, e) \<Rightarrow>
           (case last_afi_idx st of
              Some k \<Rightarrow>
                if c \<noteq> [] \<or> e \<noteq> []
                then (let a = afis st ! k;
                          a1 = (if afi_cls a = [] then a\<lparr>afi_cls := c\<rparr> else a);
                          a2 = (if afi_ent a1 = [] then a1\<lparr>afi_ent := e\<rparr> else a1)
                      in st\<lparr>afis := (afis st)[k := a2], pos := pos st + 1\<rparr>)
                else st\<lparr>pos := pos st + 1\<rparr>
            | None \<Rightarrow> st\<lparr>pos := pos st + 1\<rparr>))
      else
        (case re_match (RE_NUM_ITEM U) line of
           Some m \<Rightarrow>
             (case extract_ce_across_lines U lines (pos st) (grp m 2) of
                (clean, cls, ent, j) \<Rightarrow>
                  st\<lparr>afis := afis st @ [\<lparr>afi_num = Some (int_of_digits U (grp m 1)),
                                           afi_text = clean, afi_cls = cls, afi_ent = ent\<rparr>],
                     last_afi_idx := Some (length (afis st)),
                     pos := nat (max (int (pos st)) j + 1)\<rparr>)
         | None \<Rightarrow>
             if 40 \<in> set line
             then (case extract_ce_across_lines U lines (pos st) line of
                     (clean, cls, ent, j) \<Rightarrow>
                       if cls \<noteq> [] \<or> ent \<noteq> []
                       then st\<lparr>afis := afis st @ [\<lparr>afi_num = None, afi_text = clean,
                                                     afi_cls = cls, afi_ent = ent\<rparr>],
                               last_afi_idx := Some (length (afis st)),
                               pos := nat (j + 1)\<rparr>
                       else st\<lparr>pos := pos st + 1\<rparr>)
             else st\<lparr>pos := pos st + 1\<rparr>))"

text \<open>A line read in the recommendation state.\<close>

definition reco_line :: "ucd \<Rightarrow> ustring \<Rightarrow> pstate \<Rightarrow> pstate" where
  "reco_line U line st =
     (case re_match (RE_NUM_ITEM U) line of
        Some m \<Rightarrow>
          (flush_reco st)\<lparr>cur_rec_num := Some (grp m 1), cur_rec_parts := [tidy (grp m 2)],
                          pos := pos st + 1\<rparr>
      | None \<Rightarrow>
          st\<lparr>cur_rec_num := Some (case cur_rec_num st of None \<Rightarrow> ustr ''1'' | Some k \<Rightarrow> k),
             cur_rec_parts := cur_rec_parts st @ [tidy line],
             pos := pos st + 1\<rparr>)"

text \<open>One turn of the loop over the lines, at a position inside the list.\<close>

definition step :: "ucd \<Rightarrow> cols \<Rightarrow> ustring \<Rightarrow> ustring list \<Rightarrow> pstate \<Rightarrow> pstate" where
  "step U cs src lines st =
     (let line = lines ! pos st;
          m_proc = re_match RE_PROCESS line;
          m_simple = re_match (RE_PROC_SIMPLE U) line
      in if m_proc \<noteq> None \<or> m_simple \<noteq> None then header_line U cs src m_proc m_simple st
         else if re_match RE_AFI_HDR line \<noteq> None
         then (flush_reco st)\<lparr>in_afi := True, in_reco := False, last_afi_idx := None,
                               pos := pos st + 1\<rparr>
         else if re_match RE_RECO_HDR line \<noteq> None
         then (flush_reco st)\<lparr>in_afi := False, in_reco := True, cur_rec_num := None,
                               cur_rec_parts := [], pos := pos st + 1\<rparr>
         else if in_afi st then afi_line U lines line st
         else if in_reco st then reco_line U line st
         else st\<lparr>pos := pos st + 1\<rparr>)"

text \<open>The loop \<open>while i < len(lines)\<close>.\<close>

function run :: "ucd \<Rightarrow> cols \<Rightarrow> ustring \<Rightarrow> ustring list \<Rightarrow> pstate \<Rightarrow> pstate" where
  "run U cs src lines st =
     (if pos st < length lines then run U cs src lines (step U cs src lines st) else st)"
  by pat_completeness auto

definition init_state :: "sheet \<Rightarrow> int \<Rightarrow> pstate" where
  "init_state sh start_row =
     \<lparr> ws = sh, row = start_row, in_afi = False, in_reco = False, process_label = [],
       afis = [], recs = [], cur_rec_num = None, cur_rec_parts = [], last_afi_idx = None,
       pos = 0 \<rparr>"

text \<open>
  \<open>process_file\<close>, from the lines of the document and its file name. The result is the
  state at the return: Python returns its \<open>row\<close>, and \<open>ws\<close> is the worksheet as written.
\<close>

definition process_file :: "ucd \<Rightarrow> ustring list \<Rightarrow> ustring \<Rightarrow> sheet \<Rightarrow> cols \<Rightarrow> int \<Rightarrow> pstate" where
  "process_file U lines src sh cs start_row =
     emit_block U cs src (flush_reco (run U cs src lines (init_state sh start_row)))"

section \<open>Notions used to state the properties\<close>

text \<open>The number of items without an explicit number among the first \<open>i\<close> items.\<close>

definition unnumbered_before :: "afi list \<Rightarrow> nat \<Rightarrow> nat" where
  "unnumbered_before xs i = length (filter (\<lambda>a. afi_num a = None) (take i xs))"

text \<open>A block of three items, the second with an explicit number.\<close>

definition three_items :: "afi list" where
  "three_items =
     [\<lparr>afi_num = None, afi_text = ustr ''A'', afi_cls = ustr ''Major'', afi_ent = []\<rparr>,
      \<lparr>afi_num = Some 1, afi_text = ustr ''B'', afi_cls = [], afi_ent = []\<rparr>,
      \<lparr>afi_num = None, afi_text = ustr ''C'', afi_cls = ustr ''Other'', afi_ent = []\<rparr>]"

text \<open>The explicit numbers of a block, and the number of its items without one.\<close>

definition explicit_numbers :: "afi list \<Rightarrow> int list" where
  "explicit_numbers xs = concat (map (\<lambda>a. case afi_num a of None \<Rightarrow> [] | Some n \<Rightarrow> [n]) xs)"

definition unnumbered :: "afi list \<Rightarrow> nat" where
  "unnumbered xs = length (filter (\<lambda>a. afi_num a = None) xs)"

text \<open>A block whose explicit number lies beyond the fallback numbers.\<close>

definition apart_items :: "afi list" where
  "apart_items =
     [\<lparr>afi_num = None, afi_text = ustr ''A'', afi_cls = ustr ''Major'', afi_ent = []\<rparr>,
      \<lparr>afi_num = Some 3, afi_text = ustr ''B'', afi_cls = [], afi_ent = []\<rparr>,
      \<lparr>afi_num = None, afi_text = ustr ''C'', afi_cls = ustr ''Other'', afi_ent = []\<rparr>]"

text \<open>An AFI section with a numbered item and an annotated line without a number.\<close>

definition clash_lines :: "ustring list" where
  "clash_lines = [ustr ''Areas for Improvement:'', ustr ''1 - Foo'', ustr ''Bar (Major - X)'']"

text \<open>The recommendation lines of the example, and the parser in the recommendation state.\<close>

definition reco_lines :: "ustring list" where
  "reco_lines = [ustr ''1 - Do X'', ustr ''continue doing X'', ustr ''2 - Do Y'']"

definition reco_state :: pstate where
  "reco_state = (init_state Map.empty 2)\<lparr>in_reco := True\<rparr>"

text \<open>Key \<open>1\<close> is flushed already and open again, with an empty fragment.\<close>

definition reopened_state :: pstate where
  "reopened_state = reco_state\<lparr>recs := [(ustr ''1'', ustr ''A'')], cur_rec_num := Some (ustr ''1''),
     cur_rec_parts := [ustr ''C'', [], ustr ''D'']\<rparr>"

text \<open>A line that the loop takes as a process, AFI or recommendation header.\<close>

definition is_header :: "ucd \<Rightarrow> ustring \<Rightarrow> bool" where
  "is_header U line = (re_match RE_PROCESS line \<noteq> None \<or> re_match (RE_PROC_SIMPLE U) line \<noteq> None
     \<or> re_match RE_AFI_HDR line \<noteq> None \<or> re_match RE_RECO_HDR line \<noteq> None)"

text \<open>The two lines of the cross-line example, and the parser in the AFI state.\<close>

definition widget_lines :: "ustring list" where
  "widget_lines = [ustr ''Improve widget handling ('', ustr ''Major - Logistics)'']"

definition afi_state :: pstate where
  "afi_state = (init_state Map.empty 2)\<lparr>in_afi := True\<rparr>"

text \<open>The recommendation text joined to an item: the entry of its number, or the empty text.\<close>

definition reco_of :: "(ustring \<times> ustring) list \<Rightarrow> afi \<Rightarrow> ustring" where
  "reco_of rs a = (case map_of rs (str_int (num_key a)) of None \<Rightarrow> [] | Some t \<Rightarrow> t)"

text \<open>A block with an explicit number 2 before an item without a number, and one recommendation.\<close>

definition unsorted_block :: pstate where
  "unsorted_block = (init_state Map.empty 2)\<lparr>
     afis := [\<lparr>afi_num = Some 2, afi_text = ustr ''B'', afi_cls = [], afi_ent = []\<rparr>,
              \<lparr>afi_num = None, afi_text = ustr ''A'', afi_cls = [], afi_ent = []\<rparr>],
     recs := [(ustr ''1'', ustr ''Do it'')]\<rparr>"

text \<open>
  A match of the keyword pattern in a text: five characters that spell \<open>major\<close> or
  \<open>other\<close> in any case, read into group 1, with a word boundary on both sides.
\<close>

definition keyword_at :: "ucd \<Rightarrow> ustring \<Rightarrow> rmatch_obj \<Rightarrow> bool" where
  "keyword_at U s m =
     (m_end m = m_start m + 5 \<and> m_end m \<le> length s
      \<and> grp m 1 = take 5 (drop (m_start m) s)
      \<and> (list_all2 ci_match (ustr ''major'') (grp m 1) \<or> list_all2 ci_match (ustr ''other'') (grp m 1))
      \<and> at_boundary (is_word U) (rev (take (m_start m) s)) (drop (m_start m) s)
      \<and> at_boundary (is_word U) (rev (take (m_end m) s)) (drop (m_end m) s))"

text \<open>
  A text without a tab and without two spaces in a row: what collapsing the runs of
  spaces and tabs leaves.
\<close>

fun single_spaced :: "ustring \<Rightarrow> bool" where
  "single_spaced [] = True"
| "single_spaced [c] = (c \<noteq> 9)"
| "single_spaced (c # d # cs) = (c \<noteq> 9 \<and> \<not> (c = 32 \<and> d = 32) \<and> single_spaced (d # cs))"

definition blank :: "nat \<Rightarrow> bool" where
  "blank c = (c = 32 \<or> c = 9)"

text \<open>The fourth step of \<open>norm\<close>, \<open>re.sub(r"[ \t]+", " ", s)\<close>.\<close>

definition collapse :: "ustring \<Rightarrow> ustring" where
  "collapse s = sub_runs (\<lambda>c. c = 32 \<or> c = 9) 1 [32] s"

text \<open>
  A character that the second to fifth steps of \<open>norm\<close> leave alone: no zero-width
  character, no non-breaking space, no carriage return, no dash but the ASCII hyphen.
\<close>

definition plain :: "nat \<Rightarrow> bool" where
  "plain c = (c \<notin> set ZERO_WIDTH \<and> c \<noteq> NBSP \<and> c \<noteq> 13 \<and> (c \<in> set DASH_CHARS \<longrightarrow> c = 45))"

text \<open>
  The text that the cross-line extractor joins when no line after \<open>idx\<close> has a closing
  parenthesis: the first line from its opening parenthesis on, and all the lines after it.
\<close>

definition open_span :: "ustring list \<Rightarrow> nat \<Rightarrow> ustring \<Rightarrow> ustring" where
  "open_span line_list idx first_line =
     join [32] (drop (case index_of 40 first_line of None \<Rightarrow> 0 | Some k \<Rightarrow> k) first_line
                # drop (idx + 1) line_list)"

text \<open>
  A standalone keyword at position \<open>p\<close> of a text: five characters that spell \<open>major\<close>
  or \<open>other\<close> in any case, with a word boundary before the first and after the last.
\<close>

definition keyword_occurs :: "ucd \<Rightarrow> ustring \<Rightarrow> nat \<Rightarrow> bool" where
  "keyword_occurs U s p =
     (p + 5 \<le> length s
      \<and> (list_all2 ci_match (ustr ''major'') (take 5 (drop p s))
           \<or> list_all2 ci_match (ustr ''other'') (take 5 (drop p s)))
      \<and> at_boundary (is_word U) (rev (take p s)) (drop p s)
      \<and> at_boundary (is_word U) (rev (take (p + 5) s)) (drop (p + 5) s))"

section \<open>The loops end\<close>

lemma collect_lines_from: "collect_lines line_list j buf = (b, k) \<Longrightarrow> j \<le> k"
proof (induction line_list j buf rule: collect_lines.induct)
  case (1 line_list j buf)
  show ?case
  proof (cases "j < length line_list \<and> 41 \<notin> set (line_list ! j)")
    case True
    with "1.prems" have "collect_lines line_list (j + 1) (buf @ [line_list ! j]) = (b, k)"
      by (simp add: collect_lines.simps [of line_list j])
    with "1.IH" True have "j + 1 \<le> k" by blast
    then show ?thesis by simp
  next
    case False
    with "1.prems" show ?thesis
      by (auto simp: collect_lines.simps [of line_list j] split: if_splits)
  qed
qed

lemma across_lines_index:
  assumes "idx < length line_list"
    and "extract_ce_across_lines U line_list idx first_line = (clean, c, e, j)"
  shows "int idx \<le> j"
proof (cases "40 \<in> set first_line \<and> 41 \<notin> set first_line")
  case True
  obtain buf k where ck: "collect_lines line_list (idx + 1)
      [drop (case index_of 40 first_line of None \<Rightarrow> 0 | Some k \<Rightarrow> k) first_line] = (buf, k)"
    by fastforce
  from collect_lines_from [OF ck] have "idx + 1 \<le> k" .
  moreover from assms(2) True ck have "j = min (int k) (int (length line_list) - 1)"
    by (auto simp: extract_ce_across_lines_def Let_def split: option.splits prod.splits)
  ultimately show ?thesis using assms(1) by simp
next
  case False
  with assms(2) show ?thesis
    by (auto simp: extract_ce_across_lines_def split: prod.splits)
qed

lemma pos_flush_reco: "pos (flush_reco st) = pos st"
  by (simp add: flush_reco_def Let_def split: option.splits)

lemma pos_emit_block: "pos (emit_block U cs src st) = pos st"
  by (simp add: emit_block_def Let_def split: prod.splits)

lemma afi_line_advances:
  assumes "pos st < length lines"
  shows "pos st < pos (afi_line U lines line st)"
proof -
  have across: "\<And>l clean c e j. extract_ce_across_lines U lines (pos st) l = (clean, c, e, j)
      \<Longrightarrow> pos st < nat (j + 1)"
    using across_lines_index [OF assms] by fastforce
  show ?thesis
    unfolding afi_line_def
    by (auto simp: Let_def dest: across split: option.splits prod.splits)
qed

lemma step_advances:
  assumes "pos st < length lines"
  shows "pos st < pos (step U cs src lines st)"
  using afi_line_advances [OF assms]
  by (simp add: step_def Let_def header_line_def reco_line_def pos_flush_reco
      split: option.splits)

lemma step_measure:
  "pos st < length lines \<Longrightarrow> length lines - pos (step U cs src lines st) < length lines - pos st"
  using step_advances [of st lines U cs src] by arith

termination run
  by (relation "measure (\<lambda>(U, cs, src, lines, st). length lines - pos st)")
     (simp_all add: step_measure)

declare run.simps [simp del]

section \<open>What the parser relies on\<close>

text \<open>
  After the numbering loop every item has a number, so the key of the sort is defined; and
  \<open>last_afi_idx\<close>, when set, stays an index into \<open>afis\<close>, so the update of the last item
  is in range.
\<close>

lemma assign_seq_numbered: "a \<in> set (assign_seq k xs) \<Longrightarrow> afi_num a \<noteq> None"
  by (induction xs arbitrary: k) (auto split: option.splits)

lemma last_afi_idx_flush_reco:
  "last_afi_idx (flush_reco st) = last_afi_idx st \<and> afis (flush_reco st) = afis st"
  by (simp add: flush_reco_def Let_def split: option.splits)

lemma last_afi_idx_in_range:
  assumes "case last_afi_idx st of None \<Rightarrow> True | Some k \<Rightarrow> k < length (afis st)"
  shows "case last_afi_idx (step U cs src lines st) of
           None \<Rightarrow> True
         | Some k \<Rightarrow> k < length (afis (step U cs src lines st))"
  using assms
  by (auto simp: step_def Let_def header_line_def afi_line_def reco_line_def
      last_afi_idx_flush_reco split: option.splits prod.splits if_splits)

section \<open>Fallback numbering\<close>

lemma unnumbered_before_Suc:
  "unnumbered_before (a # as) (Suc m) =
     (if afi_num a = None then Suc (unnumbered_before as m) else unnumbered_before as m)"
  by (simp add: unnumbered_before_def)

lemma assign_seq_length: "length (assign_seq k xs) = length xs"
  by (induction xs arbitrary: k) (auto split: option.splits)

lemma assign_seq_nth:
  "i < length xs \<Longrightarrow>
   assign_seq k xs ! i =
     (xs ! i)\<lparr>afi_num := Some (case afi_num (xs ! i) of
                               Some n \<Rightarrow> n
                             | None \<Rightarrow> k + int (unnumbered_before xs i))\<rparr>"
proof (induction xs arbitrary: k i)
  case Nil
  then show ?case by simp
next
  case (Cons a as)
  show ?case
  proof (cases i)
    case 0
    then show ?thesis
      by (cases "afi_num a") (simp_all add: unnumbered_before_def)
  next
    case (Suc m)
    with Cons.prems have m: "m < length as" by simp
    show ?thesis
      unfolding Suc using Cons.IH [OF m]
      by (cases "afi_num a"; cases "afi_num (as ! m)") (simp_all add: unnumbered_before_Suc)
  qed
qed

lemma afis_emit_block: "afis (emit_block U cs src st) = assign_seq 1 (afis st)"
  by (cases "afis st") (auto simp: emit_block_def Let_def split: prod.splits)

text \<open>
  Claim C2. The flush keeps the items in the order in which they were added and changes
  nothing but their numbers: an item with an explicit number keeps it, and an item without
  one gets 1 plus the number of unnumbered items before it, whatever the explicit numbers
  are. So the unnumbered items are numbered 1, 2, 3, ... in order of appearance.
\<close>

theorem fallback_numbers_in_order:
  assumes "i < length (afis st)"
  shows "length (afis (emit_block U cs src st)) = length (afis st) \<and>
         afis (emit_block U cs src st) ! i =
           (afis st ! i)\<lparr>afi_num := Some (case afi_num (afis st ! i) of
                                           Some n \<Rightarrow> n
                                         | None \<Rightarrow> 1 + int (unnumbered_before (afis st) i))\<rparr>"
  using assms by (simp add: afis_emit_block assign_seq_length assign_seq_nth)

theorem fallback_numbers_in_order_witness:
  "afis (emit_block ascii_ucd (1, 2, 3, 4, 5, 7) (ustr ''f.pdf'')
      ((init_state Map.empty 2)\<lparr>afis := three_items\<rparr>)) ! 2 =
   \<lparr>afi_num = Some 2, afi_text = ustr ''C'', afi_cls = ustr ''Other'', afi_ent = []\<rparr>"
  using fallback_numbers_in_order [of 2 "(init_state Map.empty 2)\<lparr>afis := three_items\<rparr>"
      ascii_ucd "(1, 2, 3, 4, 5, 7)" "ustr ''f.pdf''"]
  by (simp add: three_items_def unnumbered_before_def)

section \<open>Evaluation on concrete inputs\<close>

lemmas str_defs = ustr_def isspace_def strip_def strip_where_def DASH_CHARS_def ZERO_WIDTH_def
  NBSP_def dash_sub_def replace_char_def norm_def tidy_def find_from_def split1_def replace_def
  upper_cp_def lower_cp_def capitalize_def str_int_def int_of_digits_def SEP_def EN_DASH_SEP_def

lemmas re_defs = ci_match_def at_boundary_def group_def grp_def re_match_def re_fullmatch_def
  last_match_def seqs_def lit_ci_def ws_star_def dot_def is_word_def ascii_digit_def
  RE_AFI_HDR_def RE_RECO_HDR_def RE_PROCESS_def RE_PROC_SIMPLE_def RE_NUM_ITEM_def RE_PAREN_def
  RE_PAREN_LINE_def RE_KEYWORD_def

lemmas ucd_defs = ascii_ucd_def ascii_alnum_def ascii_decimal_def acute_ucd_def

lemmas ce_defs = paren_fields_def paren_annotation_def keyword_annotation_def
  extract_ce_anywhere_def extract_ce_across_lines_def collect_lines.simps

lemmas parser_defs = write_row_def flush_reco_def num_key_def emit_block_def header_line_def
  afi_line_def reco_line_def step_def init_state_def process_file_def run.simps

section \<open>Collisions of resolved numbers\<close>

lemma explicit_numbers_Cons:
  "explicit_numbers (a # as) =
     (case afi_num a of None \<Rightarrow> explicit_numbers as | Some n \<Rightarrow> n # explicit_numbers as)"
  by (simp add: explicit_numbers_def split: option.splits)

lemma unnumbered_Cons:
  "unnumbered (a # as) = (if afi_num a = None then Suc (unnumbered as) else unnumbered as)"
  by (simp add: unnumbered_def)

lemma assign_seq_numbers:
  "set (map afi_num (assign_seq k xs)) =
     Some ` (set (explicit_numbers xs) \<union> {k ..< k + int (unnumbered xs)})"
proof (induction xs arbitrary: k)
  case Nil
  then show ?case by (simp add: explicit_numbers_def unnumbered_def)
next
  case (Cons a as)
  show ?case
  proof (cases "afi_num a")
    case None
    have "{k ..< k + int (Suc (unnumbered as))} = insert k {k + 1 ..< k + 1 + int (unnumbered as)}"
      by auto
    with None Cons.IH [of "k + 1"] show ?thesis
      by (simp add: explicit_numbers_Cons unnumbered_Cons)
  next
    case (Some n)
    with Cons.IH [of k] show ?thesis
      by (simp add: explicit_numbers_Cons unnumbered_Cons)
  qed
qed

lemma assign_seq_distinct:
  "distinct (map afi_num (assign_seq k xs)) \<longleftrightarrow>
     distinct (explicit_numbers xs) \<and>
     (\<forall>n \<in> set (explicit_numbers xs). n < k \<or> k + int (unnumbered xs) \<le> n)"
proof (induction xs arbitrary: k)
  case Nil
  then show ?case by (simp add: explicit_numbers_def unnumbered_def)
next
  case (Cons a as)
  show ?case
  proof (cases "afi_num a")
    case None
    have "Some k \<notin> set (map afi_num (assign_seq (k + 1) as)) \<longleftrightarrow> k \<notin> set (explicit_numbers as)"
      unfolding assign_seq_numbers by auto
    with None Cons.IH [of "k + 1"] show ?thesis
      by (simp add: explicit_numbers_Cons unnumbered_Cons add.assoc) (force simp: less_le)
  next
    case (Some n)
    have "Some n \<notin> set (map afi_num (assign_seq k as)) \<longleftrightarrow>
        n \<notin> set (explicit_numbers as) \<and> (n < k \<or> k + int (unnumbered as) \<le> n)"
      unfolding assign_seq_numbers by auto
    with Some Cons.IH [of k] show ?thesis
      by (simp add: explicit_numbers_Cons unnumbered_Cons) blast
  qed
qed

text \<open>
  Claim C3, as the code has it. After the flush the resolved numbers of a block are
  pairwise different exactly when its explicit numbers are pairwise different and none of
  them is one of the fallback numbers 1, ..., k, where k is the number of items without an
  explicit number. In particular they are when every number is assigned by fallback.
\<close>

theorem resolved_numbers_distinct_iff:
  "distinct (map afi_num (afis (emit_block U cs src st))) \<longleftrightarrow>
     distinct (explicit_numbers (afis st)) \<and>
     (\<forall>n \<in> set (explicit_numbers (afis st)). n < 1 \<or> 1 + int (unnumbered (afis st)) \<le> n)"
  by (simp only: afis_emit_block assign_seq_distinct)

theorem resolved_numbers_distinct_iff_witness:
  "distinct (map afi_num (afis (emit_block ascii_ucd (1, 2, 3, 4, 5, 7) (ustr ''f.pdf'')
      ((init_state Map.empty 2)\<lparr>afis := apart_items\<rparr>))))"
  using resolved_numbers_distinct_iff [of ascii_ucd "(1, 2, 3, 4, 5, 7)" "ustr ''f.pdf''"
      "(init_state Map.empty 2)\<lparr>afis := apart_items\<rparr>"]
  by (simp add: apart_items_def explicit_numbers_def unnumbered_def)

text \<open>
  Claim C3 as stated fails: in an AFI section the line \<open>1 - Foo\<close> and then the annotated
  line \<open>Bar (Major - X)\<close> give two items that both carry the resolved number 1.
\<close>

theorem resolved_numbers_counterexample:
  "\<not> distinct (map afi_num (afis (process_file ascii_ucd clash_lines (ustr ''f.pdf'')
      Map.empty (1, 2, 3, 4, 5, 7) 2)))"
proof -
  have "map afi_num (afis (process_file ascii_ucd clash_lines (ustr ''f.pdf'')
      Map.empty (1, 2, 3, 4, 5, 7) 2)) = [Some 1, Some 1]"
    by (simp add: clash_lines_def str_defs re_defs ucd_defs ce_defs parser_defs Let_def)
  then show ?thesis by simp
qed

section \<open>Recommendations\<close>

lemma join_empty_iff: "\<forall>x \<in> set xs. x \<noteq> [] \<Longrightarrow> join sep xs = [] \<longleftrightarrow> xs = []"
  by (cases "(sep, xs)" rule: join.cases) auto

lemma joined_empty_iff:
  "join sep (filter (\<lambda>t. t \<noteq> []) ps) = [] \<longleftrightarrow> (\<forall>t \<in> set ps. t = [])"
  by (subst join_empty_iff) (auto simp: filter_empty_conv)

text \<open>
  Claim C10. Flushing an open key whose fragments join to a non-empty text stores that
  text under the key, after the text already there and the separator \<open>" | "\<close> if
  there is one; empty fragments take no part in the join; when every fragment is empty
  the accumulator stays as it is; the other keys are never touched.
\<close>

theorem flush_reco_appends:
  assumes "cur_rec_num st = Some k"
  shows "(join SEP (filter (\<lambda>t. t \<noteq> []) (cur_rec_parts st)) \<noteq> [] \<longrightarrow>
            map_of (recs (flush_reco st)) k =
              Some (case map_of (recs st) k of
                      None \<Rightarrow> join SEP (filter (\<lambda>t. t \<noteq> []) (cur_rec_parts st))
                    | Some prev \<Rightarrow>
                        prev @ (if prev \<noteq> [] then SEP else [])
                          @ join SEP (filter (\<lambda>t. t \<noteq> []) (cur_rec_parts st))))
       \<and> ((\<forall>t \<in> set (cur_rec_parts st). t = []) \<longrightarrow> recs (flush_reco st) = recs st)
       \<and> (\<forall>k'. k' \<noteq> k \<longrightarrow> map_of (recs (flush_reco st)) k' = map_of (recs st) k')"
  using assms joined_empty_iff [of SEP "cur_rec_parts st"]
  by (auto simp: flush_reco_def Let_def update_conv' split: option.splits)

theorem flush_reco_appends_witness:
  "cur_rec_num reopened_state = Some (ustr ''1'') \<and>
   map_of (recs (flush_reco reopened_state)) (ustr ''1'') = Some (ustr ''A | C | D'')"
proof -
  have k: "cur_rec_num reopened_state = Some (ustr ''1'')"
    by (simp add: reopened_state_def)
  show ?thesis
    using flush_reco_appends [OF k]
    by (simp add: reopened_state_def reco_state_def init_state_def SEP_def ustr_def)
qed

text \<open>
  Claim C7. In the recommendation state the three lines of the example leave the
  accumulator \<open>{"1": "Do X | continue doing X", "2": "Do Y"}\<close> at the end of input.
  In general, on a line that is no header, a numbered line flushes the open key and opens
  the key of its number with its tidied remainder as only fragment, and another line adds
  its tidied text to the open key, key \<open>1\<close> when none is open; the flush of a new key
  stores its non-empty fragments, in order, joined by \<open>" | "\<close>.
\<close>

theorem reco_lines_accumulate:
  "recs (flush_reco (run ascii_ucd (1, 2, 3, 4, 5, 7) (ustr ''f.pdf'') reco_lines reco_state)) =
     [(ustr ''1'', ustr ''Do X | continue doing X''), (ustr ''2'', ustr ''Do Y'')]
   \<and> (pos st < length lines \<and> \<not> is_header U (lines ! pos st) \<and> in_reco st \<and> \<not> in_afi st \<longrightarrow>
        (case re_match (RE_NUM_ITEM U) (lines ! pos st) of
           Some m \<Rightarrow>
             step U cs src lines st =
               (flush_reco st)\<lparr>cur_rec_num := Some (grp m 1), cur_rec_parts := [tidy (grp m 2)],
                               pos := pos st + 1\<rparr>
         | None \<Rightarrow>
             step U cs src lines st =
               st\<lparr>cur_rec_num := Some (case cur_rec_num st of None \<Rightarrow> ustr ''1'' | Some k \<Rightarrow> k),
                  cur_rec_parts := cur_rec_parts st @ [tidy (lines ! pos st)],
                  pos := pos st + 1\<rparr>))
   \<and> (cur_rec_num st = Some k \<and> map_of (recs st) k = None \<longrightarrow>
        map_of (recs (flush_reco st)) k =
          (if \<forall>t \<in> set (cur_rec_parts st). t = [] then None
           else Some (join SEP (filter (\<lambda>t. t \<noteq> []) (cur_rec_parts st)))))"
proof (intro conjI impI)
  show "recs (flush_reco (run ascii_ucd (1, 2, 3, 4, 5, 7) (ustr ''f.pdf'') reco_lines reco_state)) =
     [(ustr ''1'', ustr ''Do X | continue doing X''), (ustr ''2'', ustr ''Do Y'')]"
    by (simp add: reco_lines_def reco_state_def str_defs re_defs ucd_defs ce_defs parser_defs Let_def)
next
  assume "pos st < length lines \<and> \<not> is_header U (lines ! pos st) \<and> in_reco st \<and> \<not> in_afi st"
  then show "case re_match (RE_NUM_ITEM U) (lines ! pos st) of
           Some m \<Rightarrow>
             step U cs src lines st =
               (flush_reco st)\<lparr>cur_rec_num := Some (grp m 1), cur_rec_parts := [tidy (grp m 2)],
                               pos := pos st + 1\<rparr>
         | None \<Rightarrow>
             step U cs src lines st =
               st\<lparr>cur_rec_num := Some (case cur_rec_num st of None \<Rightarrow> ustr ''1'' | Some k \<Rightarrow> k),
                  cur_rec_parts := cur_rec_parts st @ [tidy (lines ! pos st)],
                  pos := pos st + 1\<rparr>"
    by (simp add: is_header_def step_def reco_line_def Let_def split: option.splits)
next
  assume "cur_rec_num st = Some k \<and> map_of (recs st) k = None"
  then show "map_of (recs (flush_reco st)) k =
          (if \<forall>t \<in> set (cur_rec_parts st). t = [] then None
           else Some (join SEP (filter (\<lambda>t. t \<noteq> []) (cur_rec_parts st))))"
    using joined_empty_iff [of SEP "cur_rec_parts st"]
    by (auto simp: flush_reco_def Let_def update_conv' split: option.splits)
qed

theorem reco_lines_accumulate_witness:
  "cur_rec_parts (step ascii_ucd (1, 2, 3, 4, 5, 7) (ustr ''f.pdf'') reco_lines
      (reco_state\<lparr>cur_rec_num := Some (ustr ''1''), cur_rec_parts := [ustr ''Do X''], pos := 1\<rparr>)) =
     [ustr ''Do X'', ustr ''continue doing X'']
   \<and> map_of (recs (flush_reco (reco_state\<lparr>cur_rec_num := Some (ustr ''1''),
        cur_rec_parts := [ustr ''Do X'', ustr ''continue doing X'']\<rparr>))) (ustr ''1'') =
     Some (ustr ''Do X | continue doing X'')"
proof -
  let ?st = "reco_state\<lparr>cur_rec_num := Some (ustr ''1''), cur_rec_parts := [ustr ''Do X''], pos := 1\<rparr>"
  let ?st2 = "reco_state\<lparr>cur_rec_num := Some (ustr ''1''),
        cur_rec_parts := [ustr ''Do X'', ustr ''continue doing X'']\<rparr>"
  note t = reco_lines_accumulate [of ?st reco_lines ascii_ucd "(1, 2, 3, 4, 5, 7)" "ustr ''f.pdf''"]
  note t2 = reco_lines_accumulate [of ?st2 reco_lines ascii_ucd "(1, 2, 3, 4, 5, 7)" "ustr ''f.pdf''" "ustr ''1''"]
  have h: "pos ?st < length reco_lines \<and> \<not> is_header ascii_ucd (reco_lines ! pos ?st)
      \<and> in_reco ?st \<and> \<not> in_afi ?st"
    by (simp add: is_header_def reco_lines_def reco_state_def init_state_def str_defs re_defs ucd_defs)
  have n: "re_match (RE_NUM_ITEM ascii_ucd) (reco_lines ! pos ?st) = None"
    by (simp add: reco_lines_def reco_state_def init_state_def str_defs re_defs ucd_defs)
  have a: "cur_rec_parts (step ascii_ucd (1, 2, 3, 4, 5, 7) (ustr ''f.pdf'') reco_lines ?st) =
     [ustr ''Do X'', ustr ''continue doing X'']"
    using t h n by (simp add: reco_lines_def reco_state_def init_state_def str_defs)
  have b: "map_of (recs (flush_reco ?st2)) (ustr ''1'') = Some (ustr ''Do X | continue doing X'')"
    using t2 by (simp add: reco_state_def init_state_def str_defs)
  from a b show ?thesis by blast
qed

section \<open>An annotation split over two lines\<close>

text \<open>
  Claim C5. In the AFI state, one turn of the loop on the line
  \<open>Improve widget handling (\<close> followed by \<open>Major - Logistics)\<close> adds the one item with
  text \<open>Improve widget handling\<close>, classification \<open>Major\<close> and entity \<open>Logistics\<close> and moves
  the index to 2, past both lines; the loop ends there with this one item.
\<close>

theorem cross_line_item:
  "afis (step ascii_ucd (1, 2, 3, 4, 5, 7) (ustr ''f.pdf'') widget_lines afi_state) =
     [\<lparr>afi_num = None, afi_text = ustr ''Improve widget handling'', afi_cls = ustr ''Major'',
       afi_ent = ustr ''Logistics''\<rparr>]
   \<and> pos (step ascii_ucd (1, 2, 3, 4, 5, 7) (ustr ''f.pdf'') widget_lines afi_state) = 2
   \<and> run ascii_ucd (1, 2, 3, 4, 5, 7) (ustr ''f.pdf'') widget_lines afi_state =
       step ascii_ucd (1, 2, 3, 4, 5, 7) (ustr ''f.pdf'') widget_lines afi_state"
proof -
  let ?st = "step ascii_ucd (1, 2, 3, 4, 5, 7) (ustr ''f.pdf'') widget_lines afi_state"
  have st: "?st = afi_state\<lparr>afis := [\<lparr>afi_num = None, afi_text = ustr ''Improve widget handling'',
        afi_cls = ustr ''Major'', afi_ent = ustr ''Logistics''\<rparr>],
      last_afi_idx := Some 0, pos := 2\<rparr>"
    by (simp add: widget_lines_def afi_state_def str_defs re_defs ucd_defs ce_defs parser_defs
        Let_def)
  have p0: "pos afi_state < length widget_lines" "\<not> pos ?st < length widget_lines"
    by (simp_all add: st) (simp_all add: afi_state_def init_state_def widget_lines_def)
  have "run ascii_ucd (1, 2, 3, 4, 5, 7) (ustr ''f.pdf'') widget_lines afi_state =
      run ascii_ucd (1, 2, 3, 4, 5, 7) (ustr ''f.pdf'') widget_lines ?st"
    using p0(1) by (subst run.simps) (simp only: if_True)
  also have "\<dots> = ?st"
    using p0(2) by (subst run.simps) (simp only: if_False)
  finally show ?thesis by (simp add: st)
qed

theorem cross_line_item_witness:
  "map afi_text (afis (run ascii_ucd (1, 2, 3, 4, 5, 7) (ustr ''f.pdf'') widget_lines afi_state)) =
     [ustr ''Improve widget handling'']
   \<and> pos (run ascii_ucd (1, 2, 3, 4, 5, 7) (ustr ''f.pdf'') widget_lines afi_state) = 2"
  using cross_line_item by simp

section \<open>Writing the rows of a block\<close>

lemma write_row_cells:
  assumes "extract_ce_anywhere U txt = (clean, c2, e2)"
  shows "write_row U sh r (col_afi, col_class, col_reco, col_entity, col_process, col_file)
           txt cls ent reco_text label src_file =
         sh((r, col_afi) \<mapsto> clean,
            (r, col_class) \<mapsto> (if cls = [] \<and> c2 \<noteq> [] then c2 else cls),
            (r, col_reco) \<mapsto> reco_text,
            (r, col_entity) \<mapsto> (if ent = [] \<and> e2 \<noteq> [] then e2 else ent),
            (r, col_process) \<mapsto> label, (r, col_file) \<mapsto> src_file)"
  using assms by (simp add: write_row_def Let_def)

lemma write_row_other_row:
  "r' \<noteq> r \<Longrightarrow> write_row U sh r cs txt cls ent reco_text label src_file (r', c) = sh (r', c)"
  by (cases cs, cases "extract_ce_anywhere U txt") (simp add: write_row_def Let_def)

text \<open>
  Claim C9. \<open>write_row\<close> runs the extractor again on the text of the item: with distinct
  columns, the AFI cell holds the text that this second extraction returns, the
  classification (entity) cell holds the second extraction's value when the item's own is
  empty and that value is not, and the item's own value whenever it is not empty.
\<close>

theorem write_row_second_pass:
  assumes "distinct [col_afi, col_class, col_reco, col_entity, col_process, col_file]"
    and "extract_ce_anywhere U txt = (clean, c2, e2)"
    and "sh' = write_row U sh r (col_afi, col_class, col_reco, col_entity, col_process, col_file)
           txt cls ent reco_text label src_file"
  shows "sh' (r, col_afi) = Some clean
       \<and> sh' (r, col_class) = Some (if cls = [] \<and> c2 \<noteq> [] then c2 else cls)
       \<and> sh' (r, col_entity) = Some (if ent = [] \<and> e2 \<noteq> [] then e2 else ent)
       \<and> (cls \<noteq> [] \<longrightarrow> sh' (r, col_class) = Some cls)
       \<and> (ent \<noteq> [] \<longrightarrow> sh' (r, col_entity) = Some ent)"
  using assms(1) unfolding assms(3) write_row_cells [OF assms(2)] by auto

theorem write_row_second_pass_witness:
  "write_row ascii_ucd Map.empty 2 (1, 2, 3, 4, 5, 7) (ustr ''Fix it (Major - Ops)'') []
      (ustr ''HR'') (ustr ''Do'') (ustr ''Value'') (ustr ''f.pdf'') (2, 1) = Some (ustr ''Fix it'')
   \<and> write_row ascii_ucd Map.empty 2 (1, 2, 3, 4, 5, 7) (ustr ''Fix it (Major - Ops)'') []
      (ustr ''HR'') (ustr ''Do'') (ustr ''Value'') (ustr ''f.pdf'') (2, 2) = Some (ustr ''Major'')
   \<and> write_row ascii_ucd Map.empty 2 (1, 2, 3, 4, 5, 7) (ustr ''Fix it (Major - Ops)'') []
      (ustr ''HR'') (ustr ''Do'') (ustr ''Value'') (ustr ''f.pdf'') (2, 4) = Some (ustr ''HR'')"
proof -
  have d: "distinct [1, 2, 3, 4, 5, 7 :: int]" by simp
  have e: "extract_ce_anywhere ascii_ucd (ustr ''Fix it (Major - Ops)'') =
      (ustr ''Fix it'', ustr ''Major'', ustr ''Ops'')"
    by (simp add: str_defs re_defs ucd_defs ce_defs Let_def)
  show ?thesis
    using write_row_second_pass [OF d e refl, where sh = Map.empty and r = 2 and cls = "[]"
        and ent = "ustr ''HR''" and reco_text = "ustr ''Do''" and label = "ustr ''Value''"
        and src_file = "ustr ''f.pdf''"]
    by (simp add: ustr_def)
qed

lemma emit_rows_row:
  "snd (emit_rows U cs rs label src items (sh, r)) = r + int (length items)"
  by (induction items arbitrary: sh r) (simp_all add: Let_def)

lemma emit_rows_below:
  "r' < r \<Longrightarrow> fst (emit_rows U cs rs label src items (sh, r)) (r', c) = sh (r', c)"
  by (induction items arbitrary: sh r) (simp_all add: Let_def write_row_other_row)

lemma write_row_same_cell:
  "sh x = sh' x \<Longrightarrow>
   write_row U sh r cs txt cls ent reco_text label src_file x =
   write_row U sh' r cs txt cls ent reco_text label src_file x"
  by (cases cs, cases "extract_ce_anywhere U txt") (simp add: write_row_def Let_def)

lemma emit_rows_cell:
  assumes "k < length items"
  shows "fst (emit_rows U cs rs label src items (sh, r)) (r + int k, c) =
           write_row U sh (r + int k) cs (afi_text (items ! k)) (afi_cls (items ! k))
             (afi_ent (items ! k)) (reco_of rs (items ! k)) label src (r + int k, c)"
  using assms
proof (induction items arbitrary: sh r k)
  case Nil
  then show ?case by simp
next
  case (Cons a as)
  show ?case
  proof (cases k)
    case 0
    then show ?thesis
      by (simp add: Let_def emit_rows_below reco_of_def)
  next
    case (Suc m)
    with Cons.prems have m: "m < length as" by simp
    let ?sh1 = "write_row U sh r cs (afi_text a) (afi_cls a) (afi_ent a) (reco_of rs a) label src"
    have "?sh1 (r + 1 + int m, c) = sh (r + 1 + int m, c)"
      by (rule write_row_other_row) simp
    from write_row_same_cell [where sh = ?sh1 and sh' = sh and x = "(r + 1 + int m, c)", OF this]
      Cons.IH [OF m, of ?sh1 "r + 1"] Suc show ?thesis
      by (simp add: Let_def add.assoc reco_of_def)
  qed
qed

text \<open>
  Claim C6. The flush of a block with items writes them in the order of a stable sort by
  resolved number: the numbers ascend, the rows are the items of the block, and row \<open>k\<close>
  from the current row on is the row that \<open>write_row\<close> writes for the \<open>k\<close>-th item of
  that order with the accumulator's entry for the decimal form of its number, or the empty
  text when there is none. With distinct columns the six cells of the row read back as the
  item's re-extracted text, its classification and entity, that recommendation, the process
  label and the file name.
\<close>

theorem flush_sorted_rows:
  assumes "afis st \<noteq> []"
    and "items = sort_key num_key (assign_seq 1 (afis st))"
    and "st' = emit_block U (col_afi, col_class, col_reco, col_entity, col_process, col_file) src st"
  shows "sorted (map num_key items) \<and> mset items = mset (afis st')
       \<and> row st' = row st + int (length items)
       \<and> (\<forall>k < length items. \<forall>c.
            ws st' (row st + int k, c) =
              write_row U (ws st) (row st + int k)
                (col_afi, col_class, col_reco, col_entity, col_process, col_file)
                (afi_text (items ! k)) (afi_cls (items ! k)) (afi_ent (items ! k))
                (case map_of (recs st) (str_int (num_key (items ! k))) of
                   None \<Rightarrow> [] | Some t \<Rightarrow> t)
                (process_label st) src (row st + int k, c))
       \<and> (distinct [col_afi, col_class, col_reco, col_entity, col_process, col_file] \<longrightarrow>
           (\<forall>k < length items.
              ws st' (row st + int k, col_afi) =
                Some (fst (extract_ce_anywhere U (afi_text (items ! k))))
            \<and> ws st' (row st + int k, col_class) =
                Some (if afi_cls (items ! k) = []
                      then fst (snd (extract_ce_anywhere U (afi_text (items ! k))))
                      else afi_cls (items ! k))
            \<and> ws st' (row st + int k, col_entity) =
                Some (if afi_ent (items ! k) = []
                      then snd (snd (extract_ce_anywhere U (afi_text (items ! k))))
                      else afi_ent (items ! k))
            \<and> ws st' (row st + int k, col_reco) =
                Some (case map_of (recs st) (str_int (num_key (items ! k))) of
                        None \<Rightarrow> [] | Some t \<Rightarrow> t)
            \<and> ws st' (row st + int k, col_process) = Some (process_label st)
            \<and> ws st' (row st + int k, col_file) = Some src))"
proof -
  let ?cs = "(col_afi, col_class, col_reco, col_entity, col_process, col_file)"
  let ?e = "emit_rows U ?cs (recs st) (process_label st) src items (ws st, row st)"
  have st': "st' = st\<lparr>afis := assign_seq 1 (afis st), ws := fst ?e, row := snd ?e\<rparr>"
    using assms(1) by (simp add: assms(2,3) emit_block_def Let_def split: prod.splits)
  have a: "sorted (map num_key items)" by (simp add: assms(2))
  have b: "mset items = mset (afis st')" by (simp add: st' assms(2))
  have c: "row st' = row st + int (length items)" by (simp add: st' emit_rows_row)
  have d: "\<forall>k < length items. \<forall>c.
            ws st' (row st + int k, c) =
              write_row U (ws st) (row st + int k) ?cs
                (afi_text (items ! k)) (afi_cls (items ! k)) (afi_ent (items ! k))
                (case map_of (recs st) (str_int (num_key (items ! k))) of
                   None \<Rightarrow> [] | Some t \<Rightarrow> t)
                (process_label st) src (row st + int k, c)"
    using emit_rows_cell [of _ items U ?cs "recs st" "process_label st" src "ws st" "row st"]
    by (simp add: st' reco_of_def)
  have e: "\<forall>k < length items.
              ws st' (row st + int k, col_afi) =
                Some (fst (extract_ce_anywhere U (afi_text (items ! k))))
            \<and> ws st' (row st + int k, col_class) =
                Some (if afi_cls (items ! k) = []
                      then fst (snd (extract_ce_anywhere U (afi_text (items ! k))))
                      else afi_cls (items ! k))
            \<and> ws st' (row st + int k, col_entity) =
                Some (if afi_ent (items ! k) = []
                      then snd (snd (extract_ce_anywhere U (afi_text (items ! k))))
                      else afi_ent (items ! k))
            \<and> ws st' (row st + int k, col_reco) =
                Some (case map_of (recs st) (str_int (num_key (items ! k))) of
                        None \<Rightarrow> [] | Some t \<Rightarrow> t)
            \<and> ws st' (row st + int k, col_process) = Some (process_label st)
            \<and> ws st' (row st + int k, col_file) = Some src"
    if dist: "distinct [col_afi, col_class, col_reco, col_entity, col_process, col_file]"
  proof (intro allI impI)
    fix k assume k: "k < length items"
    obtain clean c2 e2 where x: "extract_ce_anywhere U (afi_text (items ! k)) = (clean, c2, e2)"
      by (cases "extract_ce_anywhere U (afi_text (items ! k))")
    from d k dist show "ws st' (row st + int k, col_afi) =
                Some (fst (extract_ce_anywhere U (afi_text (items ! k))))
            \<and> ws st' (row st + int k, col_class) =
                Some (if afi_cls (items ! k) = []
                      then fst (snd (extract_ce_anywhere U (afi_text (items ! k))))
                      else afi_cls (items ! k))
            \<and> ws st' (row st + int k, col_entity) =
                Some (if afi_ent (items ! k) = []
                      then snd (snd (extract_ce_anywhere U (afi_text (items ! k))))
                      else afi_ent (items ! k))
            \<and> ws st' (row st + int k, col_reco) =
                Some (case map_of (recs st) (str_int (num_key (items ! k))) of
                        None \<Rightarrow> [] | Some t \<Rightarrow> t)
            \<and> ws st' (row st + int k, col_process) = Some (process_label st)
            \<and> ws st' (row st + int k, col_file) = Some src"
      by (simp add: write_row_cells [OF x] x)
  qed
  from a b c d e show ?thesis by blast
qed

theorem flush_sorted_rows_witness:
  "ws (emit_block ascii_ucd (1, 2, 3, 4, 5, 7) (ustr ''f.pdf'') unsorted_block) (2, 1) =
     Some (ustr ''A'')
   \<and> ws (emit_block ascii_ucd (1, 2, 3, 4, 5, 7) (ustr ''f.pdf'') unsorted_block) (2, 3) =
     Some (ustr ''Do it'')
   \<and> ws (emit_block ascii_ucd (1, 2, 3, 4, 5, 7) (ustr ''f.pdf'') unsorted_block) (3, 1) =
     Some (ustr ''B'')
   \<and> ws (emit_block ascii_ucd (1, 2, 3, 4, 5, 7) (ustr ''f.pdf'') unsorted_block) (3, 3) = Some []
   \<and> row (emit_block ascii_ucd (1, 2, 3, 4, 5, 7) (ustr ''f.pdf'') unsorted_block) = 4"
proof -
  let ?items = "sort_key num_key (assign_seq 1 (afis unsorted_block))"
  let ?st' = "emit_block ascii_ucd (1, 2, 3, 4, 5, 7) (ustr ''f.pdf'') unsorted_block"
  have n: "afis unsorted_block \<noteq> []" by (simp add: unsorted_block_def)
  have dist: "distinct [1, 2, 3, 4, 5, 7 :: int]" by simp
  have items: "?items =
      [\<lparr>afi_num = Some 1, afi_text = ustr ''A'', afi_cls = [], afi_ent = []\<rparr>,
       \<lparr>afi_num = Some 2, afi_text = ustr ''B'', afi_cls = [], afi_ent = []\<rparr>]"
    by (simp add: unsorted_block_def num_key_def)
  have r: "row unsorted_block = 2" "recs unsorted_block = [(ustr ''1'', ustr ''Do it'')]"
    by (simp_all add: unsorted_block_def init_state_def)
  have xa: "extract_ce_anywhere ascii_ucd [65] = ([65], [], [])"
    by (simp add: str_defs re_defs ucd_defs ce_defs Let_def)
  have xb: "extract_ce_anywhere ascii_ucd [66] = ([66], [], [])"
    by (simp add: str_defs re_defs ucd_defs ce_defs Let_def)
  note t = flush_sorted_rows [OF n refl refl, where col_afi = 1 and col_class = 2
      and col_reco = 3 and col_entity = 4 and col_process = 5 and col_file = 7
      and U = ascii_ucd and src = "ustr ''f.pdf''"]
  from t dist have cells: "\<forall>k < length ?items.
      ws ?st' (row unsorted_block + int k, 1) =
        Some (fst (extract_ce_anywhere ascii_ucd (afi_text (?items ! k))))
      \<and> ws ?st' (row unsorted_block + int k, 3) =
        Some (case map_of (recs unsorted_block) (str_int (num_key (?items ! k))) of
                None \<Rightarrow> [] | Some t \<Rightarrow> t)"
    by blast
  from cells [rule_format, of 0] have a: "ws ?st' (2, 1) = Some (ustr ''A'')
      \<and> ws ?st' (2, 3) = Some (ustr ''Do it'')"
    unfolding items r by (simp add: xa num_key_def str_defs)
  from cells [rule_format, of 1] have b: "ws ?st' (3, 1) = Some (ustr ''B'')
      \<and> ws ?st' (3, 3) = Some []"
    unfolding items r by (simp add: xb num_key_def str_defs)
  from t have "row ?st' = row unsorted_block + int (length ?items)" by blast
  then have "row ?st' = 4" unfolding items r by simp
  with a b show ?thesis by blast
qed

section \<open>The matches of the annotation patterns\<close>

lemma finditer_all:
  "\<forall>pre s pre' s' g rest. rmatch r (pre, s, []) = (pre', s', g) # rest \<longrightarrow>
      P (rev pre @ s) \<lparr>m_start = length pre, m_end = length pre', m_groups = g\<rparr> \<and>
      rev pre' @ s' = rev pre @ s \<Longrightarrow>
   m \<in> set (finditer r pre s) \<Longrightarrow> P (rev pre @ s) m"
proof (induction r pre s rule: finditer.induct)
  case (1 r pre)
  show ?case
  proof (cases "rmatch r (pre, [], [])")
    case Nil
    with "1.prems" show ?thesis by simp
  next
    case (Cons x rest)
    obtain pre' s' g where x: "x = (pre', s', g)" by (cases x)
    from "1.prems"(2) Cons x have "m = \<lparr>m_start = length pre, m_end = length pre', m_groups = g\<rparr>"
      by simp
    with "1.prems"(1) Cons x show ?thesis by blast
  qed
next
  case (2 r pre c cs)
  show ?case
  proof (cases "rmatch r (pre, c # cs, [])")
    case Nil
    with "2.prems" "2.IH"(1) show ?thesis by simp
  next
    case (Cons x rest)
    obtain pre' s' g where x: "x = (pre', s', g)" by (cases x)
    from "2.prems"(1) Cons x have here:
      "P (rev pre @ c # cs) \<lparr>m_start = length pre, m_end = length pre', m_groups = g\<rparr>"
      and same: "rev pre' @ s' = rev pre @ c # cs"
      by blast+
    from "2.prems"(2) Cons x consider
        "m = \<lparr>m_start = length pre, m_end = length pre', m_groups = g\<rparr>"
      | "length s' < length (c # cs)" "m \<in> set (finditer r pre' s')"
      | "\<not> length s' < length (c # cs)" "m \<in> set (finditer r (c # pre) cs)"
      by (auto split: if_splits)
    then show ?thesis
    proof cases
      case 1
      with here show ?thesis by simp
    next
      case 2
      with "2.IH"(2) [OF Cons x [symmetric] refl _ "2.prems"(1)] same show ?thesis by simp
    next
      case 3
      with "2.IH"(3) [OF Cons x [symmetric] refl _ "2.prems"(1)] show ?thesis by simp
    qed
  qed
qed

lemma last_match_in: "last_match r s = Some m \<Longrightarrow> m \<in> set (finditer r [] s)"
  by (auto simp: last_match_def split: list.splits if_splits)

lemma rmatch_lit_ci:
  "rmatch (seqs (map ChrI w)) (pre, s, g) =
     (if length w \<le> length s \<and> list_all2 ci_match w (take (length w) s)
      then [(rev (take (length w) s) @ pre, drop (length w) s, g)] else [])"
proof (induction w arbitrary: pre s)
  case Nil
  then show ?case by (simp add: seqs_def)
next
  case (Cons a w)
  have IH: "\<And>pre s. rmatch (foldr Seq (map ChrI w) Eps) (pre, s, g) =
     (if length w \<le> length s \<and> list_all2 ci_match w (take (length w) s)
      then [(rev (take (length w) s) @ pre, drop (length w) s, g)] else [])"
    using Cons.IH by (simp add: seqs_def)
  show ?case
    by (cases s) (simp_all add: seqs_def IH)
qed

lemma capitalize_major: "list_all2 ci_match (ustr ''major'') w \<Longrightarrow> capitalize w = ustr ''Major''"
  by (auto simp: ustr_def list_all2_Cons1 ci_match_def capitalize_def upper_cp_def lower_cp_def)

lemma capitalize_other: "list_all2 ci_match (ustr ''other'') w \<Longrightarrow> capitalize w = ustr ''Other''"
  by (auto simp: ustr_def list_all2_Cons1 ci_match_def capitalize_def upper_cp_def lower_cp_def)

lemma lit_ci_ustr: "lit_ci w = seqs (map ChrI (ustr w))"
  by (simp add: lit_ci_def ustr_def comp_def)

lemma keyword_rmatch:
  assumes "rmatch (RE_KEYWORD U) (pre, s, []) = (pre', s', g) # rest"
  shows "keyword_at U (rev pre @ s) \<lparr>m_start = length pre, m_end = length pre', m_groups = g\<rparr>
       \<and> rev pre' @ s' = rev pre @ s"
proof -
  have len: "length (ustr ''major'') = 5" "length (ustr ''other'') = 5" by (simp_all add: ustr_def)
  from assms show ?thesis
    unfolding RE_KEYWORD_def keyword_at_def
    apply (simp add: seqs_def [of "[_, _, _]"] lit_ci_ustr rmatch_lit_ci len grp_def group_def
        split: if_splits)
    apply (auto simp: len min_def split: if_splits)
    done
qed

lemma keyword_found:
  assumes "last_match (RE_KEYWORD U) s = Some m"
  shows "keyword_at U s m"
  using finditer_all [of "RE_KEYWORD U" "keyword_at U" m "[]" s] keyword_rmatch [of U]
    last_match_in [OF assms]
  by simp

lemma keyword_capitalized:
  "keyword_at U s m \<Longrightarrow> capitalize (grp m 1) \<in> {ustr ''Major'', ustr ''Other''}"
  by (auto simp: keyword_at_def capitalize_major capitalize_other)

lemma index_of_None: "index_of c xs = None \<longleftrightarrow> c \<notin> set xs"
  by (induction xs) auto

lemma index_of_Some:
  "index_of c xs = Some k \<Longrightarrow> k < length xs \<and> xs ! k = c \<and> c \<notin> set (take k xs)"
  by (induction xs arbitrary: k) (auto split: if_splits)

lemma find_from_None: "find_from c s start = None \<longleftrightarrow> c \<notin> set (drop start s)"
  by (simp add: find_from_def index_of_None)

lemma find_from_Some:
  assumes "find_from c s start = Some d"
  shows "start \<le> d \<and> d < length s \<and> s ! d = c \<and> c \<notin> set (take (d - start) (drop start s))"
proof -
  from assms obtain k where k: "index_of c (drop start s) = Some k" and d: "d = start + k"
    by (auto simp: find_from_def)
  from index_of_Some [OF k] d show ?thesis by (auto simp: add.commute)
qed

lemma keyword_at_occurs: "keyword_at U s m \<Longrightarrow> keyword_occurs U s (m_start m)"
  by (auto simp: keyword_at_def keyword_occurs_def)

lemma keyword_rmatch_iff:
  "rmatch (RE_KEYWORD U) (pre, s, []) \<noteq> [] \<longleftrightarrow> keyword_occurs U (rev pre @ s) (length pre)"
proof -
  have len: "length (ustr ''major'') = 5" "length (ustr ''other'') = 5" by (simp_all add: ustr_def)
  show ?thesis
    unfolding RE_KEYWORD_def keyword_occurs_def
    by (auto simp: seqs_def [of "[_, _, _]"] lit_ci_ustr rmatch_lit_ci len split: if_splits)
qed

lemma keyword_scan:
  "rev pre @ s = full \<Longrightarrow>
   (finditer (RE_KEYWORD U) pre s = [] \<longrightarrow> (\<forall>q \<ge> length pre. \<not> keyword_occurs U full q))
   \<and> (finditer (RE_KEYWORD U) pre s \<noteq> [] \<longrightarrow>
        (\<forall>q \<ge> m_end (last (finditer (RE_KEYWORD U) pre s)). \<not> keyword_occurs U full q))"
proof (induction s arbitrary: pre rule: length_induct)
  case (1 s)
  let ?r = "RE_KEYWORD U"
  note full = "1.prems"
  have beyond: "\<And>q. length full < q + 5 \<Longrightarrow> \<not> keyword_occurs U full q"
    by (simp add: keyword_occurs_def)
  show ?case
  proof (cases "rmatch ?r (pre, s, [])")
    case Nil
    then have here: "\<not> keyword_occurs U full (length pre)"
      using keyword_rmatch_iff [of U pre s] full by simp
    show ?thesis
    proof (cases s)
      case Nil
      then have "length full = length pre" using full by auto
      then have "\<forall>q \<ge> length pre. \<not> keyword_occurs U full q" using beyond by simp
      with Nil \<open>rmatch ?r (pre, s, []) = []\<close> show ?thesis by simp
    next
      case (Cons c cs)
      have eq: "finditer ?r pre s = finditer ?r (c # pre) cs"
        using Cons \<open>rmatch ?r (pre, s, []) = []\<close> by simp
      have "rev (c # pre) @ cs = full" using full Cons by simp
      with "1.IH" [rule_format, of cs "c # pre"] Cons have ih:
        "(finditer ?r (c # pre) cs = [] \<longrightarrow> (\<forall>q \<ge> length (c # pre). \<not> keyword_occurs U full q))
         \<and> (finditer ?r (c # pre) cs \<noteq> [] \<longrightarrow>
              (\<forall>q \<ge> m_end (last (finditer ?r (c # pre) cs)). \<not> keyword_occurs U full q))"
        by simp
      have "\<And>q. length pre \<le> q \<Longrightarrow> q = length pre \<or> length (c # pre) \<le> q" by auto
      with ih here show ?thesis unfolding eq by blast
    qed
  next
    case (Cons x rest)
    obtain pre' s' g where x: "x = (pre', s', g)" by (cases x)
    let ?m = "\<lparr>m_start = length pre, m_end = length pre', m_groups = g\<rparr>"
    from keyword_rmatch [of U pre s pre' s' g rest] Cons x
    have at: "keyword_at U full ?m" and same: "rev pre' @ s' = full"
      using full by simp_all
    from at have e5: "length pre' = length pre + 5" and le: "length pre' \<le> length full"
      by (simp_all add: keyword_at_def)
    from same full have "length pre' + length s' = length pre + length s"
      by (metis length_append length_rev)
    with e5 have shorter: "length s' < length s" by simp
    then obtain c cs where s: "s = c # cs" by (cases s) auto
    have eq: "finditer ?r pre s = ?m # finditer ?r pre' s'"
      using Cons x s shorter by simp
    from "1.IH" [rule_format, of s' pre'] shorter same have ih:
        "(finditer ?r pre' s' = [] \<longrightarrow> (\<forall>q \<ge> length pre'. \<not> keyword_occurs U full q))
         \<and> (finditer ?r pre' s' \<noteq> [] \<longrightarrow>
              (\<forall>q \<ge> m_end (last (finditer ?r pre' s')). \<not> keyword_occurs U full q))"
      by blast
    show ?thesis
    proof (cases "finditer ?r pre' s' = []")
      case True
      with ih eq show ?thesis by simp
    next
      case False
      with ih eq show ?thesis by simp
    qed
  qed
qed

lemma keyword_letters:
  assumes "keyword_occurs U s p"
  shows "\<exists>w \<in> {ustr ''major'', ustr ''other''}. \<forall>i < 5. ci_match (w ! i) (s ! (p + i))"
proof -
  from assms have p5: "p + 5 \<le> length s" by (simp add: keyword_occurs_def)
  have len: "length (ustr ''major'') = 5" "length (ustr ''other'') = 5"
    by (simp_all add: ustr_def)
  have nth: "\<And>i. i < 5 \<Longrightarrow> take 5 (drop p s) ! i = s ! (p + i)"
    using p5 by simp
  from assms have "list_all2 ci_match (ustr ''major'') (take 5 (drop p s))
      \<or> list_all2 ci_match (ustr ''other'') (take 5 (drop p s))"
    by (simp add: keyword_occurs_def)
  then show ?thesis
  proof
    assume "list_all2 ci_match (ustr ''major'') (take 5 (drop p s))"
    then have "\<forall>i < 5. ci_match (ustr ''major'' ! i) (take 5 (drop p s) ! i)"
      unfolding list_all2_conv_all_nth len by blast
    with nth show ?thesis by simp
  next
    assume "list_all2 ci_match (ustr ''other'') (take 5 (drop p s))"
    then have "\<forall>i < 5. ci_match (ustr ''other'' ! i) (take 5 (drop p s) ! i)"
      unfolding list_all2_conv_all_nth len by blast
    with nth show ?thesis by simp
  qed
qed

lemma ci_letter:
  assumes "ci_match x c" and "x \<in> set (ustr ''majorthe'')"
  shows "(c = x \<or> c + 32 = x) \<and> 97 \<le> x \<and> x \<le> 122"
proof -
  from assms(2) have x: "x \<noteq> 105" "x \<noteq> 115" "x \<noteq> 107" "97 \<le> x" "x \<le> 122"
    by (auto simp: ustr_def)
  with assms(1) show ?thesis by (simp add: ci_match_def)
qed

lemma ci_clash:
  assumes "ci_match x c" and "ci_match y c"
    and "x \<in> set (ustr ''majorthe'')" and "y \<in> set (ustr ''majorthe'')"
  shows "x = y"
  using ci_letter [OF assms(1,3)] ci_letter [OF assms(2,4)] by arith

lemma keyword_no_overlap:
  assumes "keyword_occurs U s p" and "p < q" and "q < p + 5"
  shows "\<not> keyword_occurs U s q"
proof
  assume q: "keyword_occurs U s q"
  define d where "d = q - p"
  with assms(2,3) have qd: "q = p + d" and d: "d = 1 \<or> d = 2 \<or> d = 3 \<or> d = 4" by auto
  define c0 where "c0 = s ! (p + d)"
  define c1 where "c1 = s ! (p + (d + 1))"
  from keyword_letters [OF assms(1)] obtain w1
    where w1: "w1 = ustr ''major'' \<or> w1 = ustr ''other''"
      and a: "\<forall>i < 5. ci_match (w1 ! i) (s ! (p + i))" by auto
  from keyword_letters [OF q] obtain w2
    where w2: "w2 = ustr ''major'' \<or> w2 = ustr ''other''"
      and b: "\<forall>i < 5. ci_match (w2 ! i) (s ! (q + i))" by auto
  from d have "d < 5" by auto
  from a [rule_format, OF this] have a0: "ci_match (w1 ! d) c0" unfolding c0_def .
  from a [rule_format, of "d + 1"] have a1: "d + 1 < 5 \<Longrightarrow> ci_match (w1 ! (d + 1)) c1"
    unfolding c1_def .
  have "q + 0 = p + d" "q + 1 = p + (d + 1)" using qd by simp_all
  with b [rule_format, of 0] b [rule_format, of 1]
  have b0: "ci_match (w2 ! 0) c0" and b1: "ci_match (w2 ! 1) c1"
    unfolding c0_def c1_def by (simp_all only: zero_less_numeral one_less_numeral_iff
        semiring_norm simp_thms)
  have first: "w1 ! d = w2 ! 0"
    by (rule ci_clash [OF a0 b0]) (use w1 w2 d in \<open>auto simp: ustr_def\<close>)
  with w1 w2 d have d3: "d = 3" "w1 = ustr ''major''" "w2 = ustr ''other''"
    by (auto simp: ustr_def)
  then have "ci_match (w1 ! (d + 1)) c1" using a1 by simp
  from ci_clash [OF this b1] d3 show False by (simp add: ustr_def)
qed

lemma keyword_last:
  assumes "keyword_occurs U s p"
  shows "\<exists>m. last_match (RE_KEYWORD U) s = Some m \<and> keyword_at U s m \<and> p \<le> m_start m
           \<and> (\<forall>q > m_start m. \<not> keyword_occurs U s q)"
proof -
  let ?ms = "finditer (RE_KEYWORD U) [] s"
  note scan = keyword_scan [of "[]" s s U, simplified]
  from scan assms have ne: "?ms \<noteq> []" by blast
  then have lm: "last_match (RE_KEYWORD U) s = Some (last ?ms)"
    by (cases ?ms) (simp_all add: last_match_def)
  note at = keyword_found [OF lm]
  from scan ne have after: "\<forall>q \<ge> m_end (last ?ms). \<not> keyword_occurs U s q" by blast
  have e5: "m_end (last ?ms) = m_start (last ?ms) + 5" using at by (simp add: keyword_at_def)
  have later: "\<forall>q > m_start (last ?ms). \<not> keyword_occurs U s q"
  proof (intro allI impI)
    fix q assume q: "m_start (last ?ms) < q"
    show "\<not> keyword_occurs U s q"
    proof (cases "q < m_start (last ?ms) + 5")
      case True
      from keyword_no_overlap [OF keyword_at_occurs [OF at] q True] show ?thesis .
    next
      case False
      with after e5 show ?thesis by simp
    qed
  qed
  with assms have "p \<le> m_start (last ?ms)" by (meson not_le)
  with lm at later show ?thesis by blast
qed

text \<open>
  Claim C4, as the code has it. When the parenthesized part finds no annotation and the
  text has a standalone keyword at some position, the keyword pattern matches and its last
  match \<open>m\<close> is the last standalone keyword of the text: there is one at its start, at or
  after every other, and none further right. The capitalized keyword is \<open>Major\<close> or
  \<open>Other\<close>; the hyphen looked for is the first one from the start of that keyword on; if
  there is one and the text after it tidies to a non-empty entity, the result is the tidied
  text before the keyword, the capitalized keyword and that entity; if there is no hyphen,
  or the entity is empty, the result is the tidied text with empty classification and
  entity.
\<close>

theorem keyword_fallback:
  assumes "paren_annotation s = None" and "keyword_occurs U s p"
  shows "\<exists>m. last_match (RE_KEYWORD U) s = Some m
       \<and> keyword_occurs U s (m_start m) \<and> p \<le> m_start m
       \<and> (\<forall>q > m_start m. \<not> keyword_occurs U s q)
       \<and> m_end m = m_start m + 5 \<and> grp m 1 = take 5 (drop (m_start m) s)
       \<and> capitalize (grp m 1) \<in> {ustr ''Major'', ustr ''Other''}
       \<and> (case find_from 45 s (m_start m) of
            None \<Rightarrow> 45 \<notin> set (drop (m_start m) s) \<and> extract_ce_anywhere U s = (tidy s, [], [])
          | Some d \<Rightarrow>
              m_start m \<le> d \<and> d < length s \<and> s ! d = 45
              \<and> 45 \<notin> set (take (d - m_start m) (drop (m_start m) s))
              \<and> extract_ce_anywhere U s =
                  (if tidy (drop (d + 1) s) \<noteq> []
                   then (tidy (take (m_start m) s), capitalize (grp m 1), tidy (drop (d + 1) s))
                   else (tidy s, [], [])))"
proof -
  from keyword_last [OF assms(2)] obtain m
    where lm: "last_match (RE_KEYWORD U) s = Some m" and at: "keyword_at U s m"
      and p: "p \<le> m_start m" and later: "\<forall>q > m_start m. \<not> keyword_occurs U s q"
    by blast
  from at have g: "m_end m = m_start m + 5" "grp m 1 = take 5 (drop (m_start m) s)"
    by (simp_all add: keyword_at_def)
  have rest: "case find_from 45 s (m_start m) of
            None \<Rightarrow> 45 \<notin> set (drop (m_start m) s) \<and> extract_ce_anywhere U s = (tidy s, [], [])
          | Some d \<Rightarrow>
              m_start m \<le> d \<and> d < length s \<and> s ! d = 45
              \<and> 45 \<notin> set (take (d - m_start m) (drop (m_start m) s))
              \<and> extract_ce_anywhere U s =
                  (if tidy (drop (d + 1) s) \<noteq> []
                   then (tidy (take (m_start m) s), capitalize (grp m 1), tidy (drop (d + 1) s))
                   else (tidy s, [], []))"
  proof (cases "find_from 45 s (m_start m)")
    case None
    with assms(1) lm find_from_None [of 45 s "m_start m"] show ?thesis
      by (simp add: extract_ce_anywhere_def keyword_annotation_def)
  next
    case (Some d)
    with assms(1) lm find_from_Some [OF Some] show ?thesis
      by (simp add: extract_ce_anywhere_def keyword_annotation_def Let_def)
  qed
  from lm keyword_at_occurs [OF at] p later g keyword_capitalized [OF at] rest
  show ?thesis by blast
qed

theorem keyword_fallback_witness:
  "extract_ce_anywhere ascii_ucd (ustr ''major a - other b - c'') =
     (ustr ''major a'', ustr ''Other'', ustr ''c'')"
proof -
  let ?s = "ustr ''major a - other b - c''"
  have pa: "paren_annotation ?s = None"
    by (simp add: str_defs re_defs ce_defs)
  have occ: "keyword_occurs ascii_ucd ?s 0"
    by (simp add: keyword_occurs_def str_defs re_defs ucd_defs)
  have k: "last_match (RE_KEYWORD ascii_ucd) ?s =
      Some \<lparr>m_start = 10, m_end = 15, m_groups = [(1, ustr ''other'')]\<rparr>"
    by (simp add: str_defs re_defs ucd_defs)
  from keyword_fallback [OF pa occ] obtain m
    where "last_match (RE_KEYWORD ascii_ucd) ?s = Some m"
      and r: "case find_from 45 ?s (m_start m) of
            None \<Rightarrow> 45 \<notin> set (drop (m_start m) ?s)
              \<and> extract_ce_anywhere ascii_ucd ?s = (tidy ?s, [], [])
          | Some d \<Rightarrow>
              m_start m \<le> d \<and> d < length ?s \<and> ?s ! d = 45
              \<and> 45 \<notin> set (take (d - m_start m) (drop (m_start m) ?s))
              \<and> extract_ce_anywhere ascii_ucd ?s =
                  (if tidy (drop (d + 1) ?s) \<noteq> []
                   then (tidy (take (m_start m) ?s), capitalize (grp m 1), tidy (drop (d + 1) ?s))
                   else (tidy ?s, [], []))"
    by blast
  with k have m: "m = \<lparr>m_start = 10, m_end = 15, m_groups = [(1, ustr ''other'')]\<rparr>" by simp
  from r show ?thesis
    unfolding m by (simp add: str_defs grp_def group_def)
qed

text \<open>
  Claim C4 as stated fails: \<open>Fix major -\<close> has no parenthesis, the keyword and a hyphen
  after it, and yet the classification returned is empty, the entity being empty.
\<close>

theorem keyword_fallback_counterexample:
  "paren_annotation (ustr ''Fix major -'') = None
   \<and> last_match (RE_KEYWORD ascii_ucd) (ustr ''Fix major -'') =
       Some \<lparr>m_start = 4, m_end = 9, m_groups = [(1, ustr ''major'')]\<rparr>
   \<and> find_from 45 (ustr ''Fix major -'') 4 = Some 10
   \<and> extract_ce_anywhere ascii_ucd (ustr ''Fix major -'') = (ustr ''Fix major'', [], [])"
  by (simp add: str_defs re_defs ucd_defs ce_defs Let_def)

section \<open>Normalizing twice\<close>

lemma norm_collapse:
  "norm U s0 = strip (dash_sub (collapse
     (replace_char 13 10 (replace_char NBSP 32
        (foldl (\<lambda>s ch. filter (\<lambda>c. c \<noteq> ch) s) (nfkc U s0) ZERO_WIDTH)))))"
  by (simp add: norm_def collapse_def Let_def)

lemma collapse_Nil: "collapse [] = []"
  by (simp add: collapse_def)

lemma collapse_Cons:
  "collapse (c # cs) =
     (if blank c then 32 # collapse (dropWhile blank cs) else c # collapse cs)"
proof -
  have "blank = (\<lambda>c. c = 32 \<or> c = 9)" by (rule ext) (simp add: blank_def)
  then show ?thesis by (simp add: collapse_def)
qed

lemma collapse_hd:
  "collapse s = x # xs \<Longrightarrow> s \<noteq> [] \<and> (if blank (hd s) then x = 32 else x = hd s)"
  by (cases s) (auto simp: collapse_Nil collapse_Cons split: if_splits)

lemma single_spaced_Cons:
  "single_spaced (c # cs) \<longleftrightarrow> c \<noteq> 9 \<and> (c = 32 \<longrightarrow> cs = [] \<or> hd cs \<noteq> 32) \<and> single_spaced cs"
  by (cases cs) auto

lemma collapse_single_spaced: "single_spaced (collapse s)"
proof (induction s rule: length_induct)
  case (1 s)
  show ?case
  proof (cases s)
    case Nil
    then show ?thesis by (simp add: collapse_Nil)
  next
    case (Cons c cs)
    show ?thesis
    proof (cases "blank c")
      case True
      let ?r = "dropWhile blank cs"
      have "length ?r < length s" using Cons by (simp add: length_dropWhile_le less_Suc_eq_le)
      with 1 have ih: "single_spaced (collapse ?r)" by blast
      have "collapse ?r = [] \<or> hd (collapse ?r) \<noteq> 32"
      proof (cases "collapse ?r")
        case Nil
        then show ?thesis by simp
      next
        case (Cons x xs)
        from collapse_hd [OF Cons] have ne: "?r \<noteq> []"
          and x: "if blank (hd ?r) then x = 32 else x = hd ?r" by blast+
        from hd_dropWhile [OF ne] have "\<not> blank (hd ?r)" .
        with x Cons show ?thesis by (auto simp: blank_def)
      qed
      with ih True Cons show ?thesis
        by (simp add: single_spaced_Cons collapse_Cons)
    next
      case False
      have "length cs < length s" using Cons by simp
      with 1 have ih: "single_spaced (collapse cs)" by blast
      from collapse_hd [of cs] False Cons ih show ?thesis
        by (cases "collapse cs") (auto simp: single_spaced_Cons collapse_Cons blank_def)
    qed
  qed
qed

lemma collapse_id: "single_spaced s \<Longrightarrow> collapse s = s"
proof (induction s)
  case Nil
  then show ?case by (simp add: collapse_Nil)
next
  case (Cons c cs)
  then have cs: "collapse cs = cs" and c9: "c \<noteq> 9"
    and nxt: "c = 32 \<longrightarrow> cs = [] \<or> hd cs \<noteq> 32" and sp: "single_spaced cs"
    by (simp_all add: single_spaced_Cons)
  show ?case
  proof (cases "blank c")
    case True
    with c9 have "c = 32" by (simp add: blank_def)
    have "dropWhile blank cs = cs"
    proof (cases cs)
      case Nil
      then show ?thesis by simp
    next
      case (Cons d ds)
      with sp have "d \<noteq> 9" by (simp add: single_spaced_Cons)
      moreover from nxt \<open>c = 32\<close> Cons have "d \<noteq> 32" by simp
      ultimately show ?thesis using Cons by (simp add: blank_def)
    qed
    with True \<open>c = 32\<close> cs show ?thesis by (simp add: collapse_Cons)
  next
    case False
    with cs show ?thesis by (simp add: collapse_Cons)
  qed
qed

lemma single_spaced_append:
  "single_spaced (xs @ ys) \<Longrightarrow> single_spaced xs \<and> single_spaced ys"
proof (induction xs)
  case Nil
  then show ?case by simp
next
  case (Cons x xs)
  then show ?case
    by (cases xs) (auto simp: single_spaced_Cons)
qed

lemma strip_where_decomp: "\<exists>a b. s = a @ strip_where P s @ b"
proof -
  have 1: "s = takeWhile P s @ dropWhile P s" by simp
  have "rev (dropWhile P s) = takeWhile P (rev (dropWhile P s)) @ dropWhile P (rev (dropWhile P s))"
    by simp
  then have "dropWhile P s = rev (dropWhile P (rev (dropWhile P s))) @ rev (takeWhile P (rev (dropWhile P s)))"
    by (metis rev_append rev_rev_ident)
  with 1 show ?thesis unfolding strip_where_def by metis
qed

lemma single_spaced_strip: "single_spaced s \<Longrightarrow> single_spaced (strip_where P s)"
proof -
  assume s: "single_spaced s"
  obtain a b where "s = a @ strip_where P s @ b" using strip_where_decomp by blast
  with s single_spaced_append [of a "strip_where P s @ b"]
    single_spaced_append [of "strip_where P s" b] show ?thesis by metis
qed

lemma set_strip_where: "set (strip_where P s) \<subseteq> set s"
proof -
  obtain a b where "s = a @ strip_where P s @ b" using strip_where_decomp by blast
  then have "set s = set a \<union> set (strip_where P s) \<union> set b" by (metis set_append Un_assoc)
  then show ?thesis by blast
qed

lemma single_spaced_map:
  assumes "\<And>c. f c = 9 \<longleftrightarrow> c = 9" "\<And>c. f c = 32 \<longleftrightarrow> c = 32"
  shows "single_spaced (map f s) = single_spaced s"
  by (induction s rule: single_spaced.induct) (simp_all add: assms)

lemma single_spaced_dash_sub: "single_spaced (dash_sub s) = single_spaced s"
  unfolding dash_sub_def by (rule single_spaced_map) (auto simp: DASH_CHARS_def)

lemma strip_where_idem: "strip_where P (strip_where P s) = strip_where P s"
proof -
  let ?u = "dropWhile P s"
  let ?v = "rev (dropWhile P (rev ?u))"
  have "dropWhile P ?v = ?v"
  proof (cases "?v = []")
    case True
    show ?thesis unfolding True by simp
  next
    case False
    have "?u = ?v @ rev (takeWhile P (rev ?u))"
      by (metis rev_append rev_rev_ident takeWhile_dropWhile_id)
    with False have "hd ?v = hd ?u" by (metis hd_append2)
    moreover have "?u \<noteq> []"
    proof
      assume "?u = []"
      then have "?v = []" by (simp only: rev.simps dropWhile.simps)
      with False show False by contradiction
    qed
    then have "\<not> P (hd ?u)" by (rule hd_dropWhile)
    ultimately show ?thesis using False by (simp add: dropWhile_eq_self_iff)
  qed
  then show ?thesis by (simp add: strip_where_def)
qed

lemma zero_width_filter:
  "foldl (\<lambda>s ch. filter (\<lambda>c. c \<noteq> ch) s) s zs = filter (\<lambda>c. c \<notin> set zs) s"
  by (induction zs arbitrary: s) (auto intro: filter_cong)

lemma set_sub_runs: "set (sub_runs P n rep s) \<subseteq> set s \<union> set rep"
proof (induction P n rep s rule: sub_runs.induct)
  case (1 P n rep)
  then show ?case by simp
next
  case (2 P n rep c cs)
  show ?case
  proof (cases "P c \<and> n \<le> length (takeWhile P (c # cs))")
    case True
    with "2.IH"(1) have "set (sub_runs P n rep (dropWhile P cs)) \<subseteq> set (dropWhile P cs) \<union> set rep"
      by blast
    moreover have "set (dropWhile P cs) \<subseteq> set cs" by (auto dest: set_dropWhileD)
    ultimately have "set (sub_runs P n rep (dropWhile P cs)) \<subseteq> set cs \<union> set rep" by blast
    with True show ?thesis by (simp del: takeWhile.simps) blast
  next
    case False
    with "2.IH"(2) have "set (sub_runs P n rep cs) \<subseteq> set cs \<union> set rep" by blast
    with False show ?thesis by (simp del: takeWhile.simps) blast
  qed
qed


lemma set_collapse: "set (collapse s) \<subseteq> set s \<union> {32}"
  using set_sub_runs [of "\<lambda>c. c = 32 \<or> c = 9" 1 "[32]" s] by (simp add: collapse_def)

lemma norm_plain: "c \<in> set (norm U s) \<Longrightarrow> plain c"
proof -
  let ?z = "foldl (\<lambda>s ch. filter (\<lambda>c. c \<noteq> ch) s) (nfkc U s) ZERO_WIDTH"
  let ?w = "replace_char 13 10 (replace_char NBSP 32 ?z)"
  assume "c \<in> set (norm U s)"
  then have "c \<in> set (dash_sub (collapse ?w))"
    using set_strip_where [of isspace "dash_sub (collapse ?w)"]
    by (auto simp: norm_collapse strip_def)
  then obtain d where d: "d \<in> set (collapse ?w)" and c: "c = (if d \<in> set DASH_CHARS then 45 else d)"
    by (auto simp: dash_sub_def)
  from d set_collapse [of ?w] have "d = 32 \<or> d \<in> set ?w" by blast
  then have "d \<notin> set ZERO_WIDTH \<and> d \<noteq> NBSP \<and> d \<noteq> 13"
    by (auto simp: replace_char_def zero_width_filter ZERO_WIDTH_def NBSP_def split: if_splits)
  with c show ?thesis
    by (auto simp: plain_def ZERO_WIDTH_def NBSP_def DASH_CHARS_def)
qed

lemma norm_single_spaced: "single_spaced (norm U s)"
  by (simp add: norm_collapse strip_def single_spaced_strip single_spaced_dash_sub
      collapse_single_spaced)

lemma norm_stripped: "strip (norm U s) = norm U s"
  by (simp add: norm_collapse strip_def strip_where_idem)

text \<open>
  Claim C8, as the code has it. Normalizing a normalized line returns it unchanged whenever
  the line is in NFKC form, that is whenever NFKC leaves it unchanged; every ASCII line is.
\<close>

theorem norm_idempotent_on_stable:
  assumes "nfkc U (norm U s) = norm U s"
  shows "norm U (norm U s) = norm U s"
proof -
  let ?t = "norm U s"
  have pl: "\<forall>c \<in> set ?t. plain c" using norm_plain by blast
  have zw: "foldl (\<lambda>s ch. filter (\<lambda>c. c \<noteq> ch) s) ?t ZERO_WIDTH = ?t"
    unfolding zero_width_filter using pl by (simp add: plain_def)
  have nb: "replace_char NBSP 32 ?t = ?t"
    unfolding replace_char_def using pl by (intro map_idI) (auto simp: plain_def)
  have cr: "replace_char 13 10 ?t = ?t"
    unfolding replace_char_def using pl by (intro map_idI) (auto simp: plain_def)
  have co: "collapse ?t = ?t" by (rule collapse_id) (rule norm_single_spaced)
  have da: "dash_sub ?t = ?t"
    unfolding dash_sub_def using pl by (intro map_idI) (auto simp: plain_def)
  show ?thesis
    by (subst norm_collapse) (simp only: assms zw nb cr co da norm_stripped)
qed

theorem norm_idempotent_on_stable_witness:
  "norm ascii_ucd (norm ascii_ucd (ustr ''  a   b '')) = ustr ''a b''"
proof -
  have n: "norm ascii_ucd (ustr ''  a   b '') = ustr ''a b''"
    by (simp add: str_defs ucd_defs Let_def)
  have "nfkc ascii_ucd (norm ascii_ucd (ustr ''  a   b '')) = norm ascii_ucd (ustr ''  a   b '')"
    by (simp add: ascii_ucd_def)
  from norm_idempotent_on_stable [OF this] n show ?thesis by simp
qed

text \<open>
  Claim C8 as stated fails. The zero-width joiner U+200D keeps \<open>a\<close> and the combining
  acute accent U+0301 apart in the first NFKC; \<open>norm\<close> then removes it, and the second
  normalization composes the two into U+00E1.
\<close>

theorem norm_idempotent_counterexample:
  "norm acute_ucd [97, 8205, 769] = [97, 769]
   \<and> norm acute_ucd (norm acute_ucd [97, 8205, 769]) = [225]"
  by (simp add: str_defs ucd_defs Let_def)

section \<open>Texts without an annotation\<close>

lemma rep_lazy_rest: "(p, r) \<in> set (rep_lazy P pre s) \<Longrightarrow> set r \<subseteq> set s"
  by (induction s arbitrary: pre) (auto split: if_splits)

lemma paren_rmatch_none:
  assumes "41 \<notin> set s"
  shows "rmatch RE_PAREN (pre, s, g) = []"
proof (cases s)
  case Nil
  then show ?thesis by (simp add: RE_PAREN_def seqs_def)
next
  case (Cons c cs)
  have "\<And>p r. (p, r) \<in> set (rep_lazy (\<lambda>c. c \<noteq> 41) (c # pre) cs) \<Longrightarrow> 41 \<notin> set r"
    using rep_lazy_rest assms Cons by fastforce
  then have "\<And>p r. (p, 41 # r) \<notin> set (rep_lazy (\<lambda>c. c \<noteq> 41) (c # pre) cs)"
    by fastforce
  then show ?thesis
    using Cons by (auto simp: RE_PAREN_def seqs_def split: list.splits)
qed

lemma finditer_paren_none: "41 \<notin> set s \<Longrightarrow> finditer RE_PAREN pre s = []"
  by (induction s arbitrary: pre) (simp_all add: paren_rmatch_none)

lemma last_match_paren_none: "41 \<notin> set s \<Longrightarrow> last_match RE_PAREN s = None"
  by (simp add: last_match_def finditer_paren_none)

lemma paren_annotation_none: "41 \<notin> set s \<Longrightarrow> paren_annotation s = None"
  by (simp add: paren_annotation_def last_match_paren_none)

lemma paren_annotation_Some: "paren_annotation s = Some (t, c, e) \<Longrightarrow> c \<noteq> [] \<or> e \<noteq> []"
  by (auto simp: paren_annotation_def split: option.splits prod.splits if_splits)

lemma keyword_annotation_Some: "keyword_annotation U s = Some (t, c, e) \<Longrightarrow> e \<noteq> []"
  by (auto simp: keyword_annotation_def Let_def split: option.splits if_splits)

lemma collect_lines_all:
  "\<forall>l \<in> set (drop j line_list). 41 \<notin> set l \<Longrightarrow> j \<le> length line_list \<Longrightarrow>
   collect_lines line_list j buf = (buf @ drop j line_list, length line_list)"
proof (induction line_list j buf rule: collect_lines.induct)
  case (1 line_list j buf)
  show ?case
  proof (cases "j < length line_list")
    case True
    then have d: "drop j line_list = line_list ! j # drop (j + 1) line_list"
      by (simp add: Cons_nth_drop_Suc)
    with "1.prems"(1) have no: "41 \<notin> set (line_list ! j)"
      and rest: "\<forall>l \<in> set (drop (j + 1) line_list). 41 \<notin> set l"
      by simp_all
    from "1.IH" [OF True no rest] True
    have "collect_lines line_list (j + 1) (buf @ [line_list ! j]) =
        ((buf @ [line_list ! j]) @ drop (j + 1) line_list, length line_list)"
      by simp
    with True no d show ?thesis
      by (subst collect_lines.simps) simp
  next
    case False
    with "1.prems"(2) show ?thesis
      by (subst collect_lines.simps) simp
  qed
qed

lemma norm_chars:
  assumes "c \<in> set (norm U s)"
  shows "c = 45 \<or> c = 32 \<or> c = 10 \<or> c \<in> set (nfkc U s)"
proof -
  let ?z = "foldl (\<lambda>s ch. filter (\<lambda>c. c \<noteq> ch) s) (nfkc U s) ZERO_WIDTH"
  let ?w = "replace_char 13 10 (replace_char NBSP 32 ?z)"
  from assms have "c \<in> set (dash_sub (collapse ?w))"
    using set_strip_where [of isspace "dash_sub (collapse ?w)"]
    by (auto simp: norm_collapse strip_def)
  then have "c = 45 \<or> c \<in> set (collapse ?w)"
    by (auto simp: dash_sub_def split: if_splits)
  with set_collapse [of ?w] have "c = 45 \<or> c = 32 \<or> c \<in> set ?w" by blast
  then show ?thesis
    by (auto simp: replace_char_def zero_width_filter split: if_splits)
qed

text \<open>
  Claim C1, as the code has it. The extractor returns an empty classification and an empty
  entity exactly when neither the parenthesized part nor the keyword part finds an
  annotation, and the text it then returns is the tidied source text; this is the case
  when the text has no closing parenthesis and no keyword. In the cross-line variant, when
  no line after the first has a closing parenthesis and the NFKC form of the joined span has
  none, the result is the tidied first line with empty classification and entity, and the
  index of the last line.
\<close>

theorem no_annotation_returns_tidied:
  "(snd (extract_ce_anywhere U s) = ([], []) \<longleftrightarrow>
      paren_annotation s = None \<and> keyword_annotation U s = None)
   \<and> (snd (extract_ce_anywhere U s) = ([], []) \<longrightarrow> fst (extract_ce_anywhere U s) = tidy s)
   \<and> (41 \<notin> set s \<and> last_match (RE_KEYWORD U) s = None \<longrightarrow>
        extract_ce_anywhere U s = (tidy s, [], []))
   \<and> (idx < length line_list \<and> 40 \<in> set first_line \<and> 41 \<notin> set first_line
        \<and> (\<forall>l \<in> set (drop (idx + 1) line_list). 41 \<notin> set l)
        \<and> 41 \<notin> set (nfkc U (open_span line_list idx first_line)) \<longrightarrow>
        extract_ce_across_lines U line_list idx first_line =
          (tidy first_line, [], [], int (length line_list) - 1))"
proof (intro conjI impI)
  show iff: "snd (extract_ce_anywhere U s) = ([], []) \<longleftrightarrow>
      paren_annotation s = None \<and> keyword_annotation U s = None"
    using paren_annotation_Some [of s] keyword_annotation_Some [of U s]
    by (auto simp: extract_ce_anywhere_def split: option.splits)
  show "fst (extract_ce_anywhere U s) = tidy s" if "snd (extract_ce_anywhere U s) = ([], [])"
    using that iff by (simp add: extract_ce_anywhere_def)
  show "extract_ce_anywhere U s = (tidy s, [], [])"
    if "41 \<notin> set s \<and> last_match (RE_KEYWORD U) s = None"
    using that by (simp add: extract_ce_anywhere_def paren_annotation_none keyword_annotation_def)
  show "extract_ce_across_lines U line_list idx first_line =
          (tidy first_line, [], [], int (length line_list) - 1)"
    if h: "idx < length line_list \<and> 40 \<in> set first_line \<and> 41 \<notin> set first_line
        \<and> (\<forall>l \<in> set (drop (idx + 1) line_list). 41 \<notin> set l)
        \<and> 41 \<notin> set (nfkc U (open_span line_list idx first_line))"
  proof -
    let ?b = "drop (case index_of 40 first_line of None \<Rightarrow> 0 | Some k \<Rightarrow> k) first_line"
    from h have c: "collect_lines line_list (idx + 1) [?b] =
        (?b # drop (idx + 1) line_list, length line_list)"
      using collect_lines_all [of "idx + 1" line_list "[?b]"] by simp
    from h norm_chars [of 41 U "open_span line_list idx first_line"]
    have "41 \<notin> set (norm U (open_span line_list idx first_line))" by auto
    then have "last_match RE_PAREN (norm U (join [32] (?b # drop (idx + 1) line_list))) = None"
      by (simp add: last_match_paren_none open_span_def)
    with h c show ?thesis
      by (simp add: extract_ce_across_lines_def Let_def)
  qed
qed

theorem no_annotation_returns_tidied_witness:
  "extract_ce_anywhere ascii_ucd (ustr ''Fix it.'') = (ustr ''Fix it'', [], [])
   \<and> extract_ce_across_lines ascii_ucd [ustr ''Fix it. ('', ustr ''more''] 0 (ustr ''Fix it. ('') =
       (ustr ''Fix it'', [], [], 1)"
proof -
  note t = no_annotation_returns_tidied [of ascii_ucd "ustr ''Fix it.''" 0
      "[ustr ''Fix it. ('', ustr ''more'']" "ustr ''Fix it. (''"]
  have a: "41 \<notin> set (ustr ''Fix it.'') \<and> last_match (RE_KEYWORD ascii_ucd) (ustr ''Fix it.'') = None"
    by (simp add: str_defs re_defs ucd_defs)
  have b: "0 < length [ustr ''Fix it. ('', ustr ''more''] \<and> 40 \<in> set (ustr ''Fix it. ('')
      \<and> 41 \<notin> set (ustr ''Fix it. ('')
      \<and> (\<forall>l \<in> set (drop (0 + 1) [ustr ''Fix it. ('', ustr ''more'']). 41 \<notin> set l)
      \<and> 41 \<notin> set (nfkc ascii_ucd (open_span [ustr ''Fix it. ('', ustr ''more''] 0 (ustr ''Fix it. ('')))"
    by (simp add: open_span_def str_defs ucd_defs)
  from t a have "extract_ce_anywhere ascii_ucd (ustr ''Fix it.'') = (tidy (ustr ''Fix it.''), [], [])"
    by blast
  moreover from t b have "extract_ce_across_lines ascii_ucd [ustr ''Fix it. ('', ustr ''more''] 0
      (ustr ''Fix it. ('') = (tidy (ustr ''Fix it. (''), [], [], int (length [ustr ''Fix it. ('', ustr ''more'']) - 1)"
    by blast
  ultimately show ?thesis by (simp add: str_defs)
qed

text \<open>
  Claim C1 as stated fails: no annotation is found in \<open>Fix it.\<close>, and the text returned
  has lost its full stop.
\<close>

theorem no_annotation_counterexample:
  "paren_annotation (ustr ''Fix it.'') = None
   \<and> keyword_annotation ascii_ucd (ustr ''Fix it.'') = None
   \<and> extract_ce_anywhere ascii_ucd (ustr ''Fix it.'') = (ustr ''Fix it'', [], [])
   \<and> ustr ''Fix it'' \<noteq> ustr ''Fix it.''"
  by (simp add: str_defs re_defs ucd_defs ce_defs Let_def)

end
